theory Spec2Isabelle
  imports Complex_Main "HOL-Library.Multiset"
begin

section \<open>Numbers: doubles with an infinity, and the tolerant comparator\<close>

text \<open>
  The program computes on C++ doubles.  The only non-finite value it creates is
  \<open>+infinity\<close> (the initial start time of every operation); instance data are finite.
  A double is modelled as a finite real or \<open>PInf\<close>; rounding is not modelled.
  \<open>dadd\<close> is \<open>+\<close>, \<open>dless\<close> is \<open><\<close> and \<open>dmax\<close> is \<open>std::max\<close>
  (\<open>max(a, b) = (a < b) ? b : a\<close>).
\<close>

datatype dbl = Fin real | PInf

fun dadd :: "dbl \<Rightarrow> dbl \<Rightarrow> dbl" where
  "dadd (Fin a) (Fin b) = Fin (a + b)"
| "dadd _ _ = PInf"

fun dless :: "dbl \<Rightarrow> dbl \<Rightarrow> bool" where
  "dless (Fin a) (Fin b) = (a < b)"
| "dless (Fin a) PInf = True"
| "dless PInf _ = False"

definition dmax :: "dbl \<Rightarrow> dbl \<Rightarrow> dbl" where
  "dmax a b = (if dless a b then b else a)"

definition THRESHOLD :: real where
  "THRESHOLD = 1 / 100000"

text \<open>
  \<open>common::compare(first, second)\<close> is
  \<open>abs(first - second) < THRESHOLD ? 0 : (first < second ? -1 : 1)\<close>.
  With one infinite argument the difference is infinite, so the test fails and \<open><\<close>
  decides.  With two infinite arguments the difference is a NaN, the test fails, and
  \<open>first < second\<close> is false: the result is \<open>1\<close>.
\<close>

fun compare :: "dbl \<Rightarrow> dbl \<Rightarrow> int" where
  "compare (Fin a) (Fin b) = (if \<bar>a - b\<bar> < THRESHOLD then 0 else if a < b then - 1 else 1)"
| "compare (Fin a) PInf = - 1"
| "compare PInf _ = 1"

definition less :: "dbl \<Rightarrow> dbl \<Rightarrow> bool" where
  "less a b = (compare a b = - 1)"

text \<open>The tuple comparator on pairs: the first component whose comparison is not 0 decides.\<close>

type_synonym evaluation = "dbl \<times> dbl"

definition compare_tuple :: "evaluation \<Rightarrow> evaluation \<Rightarrow> int" where
  "compare_tuple t1 t2 =
     (let result = compare (fst t1) (fst t2) in
      if result = 0 then
        (let result2 = compare (snd t1) (snd t2) in
         if result2 = 0 then 0 else result2)
      else result)"

definition less_tuple :: "evaluation \<Rightarrow> evaluation \<Rightarrow> bool" where
  "less_tuple t1 t2 = (compare_tuple t1 t2 = - 1)"

section \<open>The problem and the schedule\<close>

datatype Technology = UNKNOWN | MANUAL | REMOTE

text \<open>
  \<open>Problem\<close>: the fields of the class, the vectors as total lookups.  The fields
  \<open>n\<close>, \<open>m\<close>, \<open>p\<close> and \<open>s\<close> carry the suffix \<open>_of\<close>.  The sets
  \<open>predecessors[j]\<close> and \<open>successors[i]\<close> are lists without repetition, in the
  iteration order of the set.
\<close>

record Problem =
  n_of :: nat
  m_of :: nat
  technology :: "nat \<Rightarrow> Technology"
  p_of :: "nat \<Rightarrow> real"
  s_of :: "nat \<Rightarrow> nat \<Rightarrow> nat \<Rightarrow> real"
  predecessors :: "nat \<Rightarrow> nat list"
  successors :: "nat \<Rightarrow> nat list"

type_synonym Schedule = "nat list list"

definition create_empty_schedule :: "nat \<Rightarrow> Schedule" where
  "create_empty_schedule k = replicate (k + 1) []"

text \<open>
  What the constructor of \<open>Problem\<close> establishes: every predecessor is an operation
  \<open>1..n\<close>, and \<open>successors\<close> is the inverse relation of \<open>predecessors\<close>.
\<close>

definition wf_problem :: "Problem \<Rightarrow> bool" where
  "wf_problem P =
     (list_all (\<lambda>j. distinct (predecessors P j) \<and> distinct (successors P j) \<and>
                    list_all (\<lambda>i. 1 \<le> i \<and> i \<le> n_of P \<and> j \<in> set (successors P i)) (predecessors P j) \<and>
                    list_all (\<lambda>k. 1 \<le> k \<and> k \<le> n_of P \<and> j \<in> set (predecessors P k)) (successors P j))
        [1..<n_of P + 1])"

section \<open>The forward simulator: \<open>Problem::start_time\<close>\<close>

record sim_state =
  sim_t :: "nat \<Rightarrow> dbl"
  sim_index :: "nat \<Rightarrow> nat"
  sim_location :: "nat \<Rightarrow> nat"
  sim_pendings :: "nat \<Rightarrow> int"
  sim_count :: nat
  sim_feasibility :: bool

text \<open>The first loop: \<open>pendings[schedule[l][idx]] = predecessors[schedule[l][idx]].size()\<close>.\<close>

definition init_pendings :: "Problem \<Rightarrow> Schedule \<Rightarrow> nat \<Rightarrow> int" where
  "init_pendings P sch =
     fold (\<lambda>l pd. fold (\<lambda>j pd'. pd'(j := int (length (predecessors P j)))) (sch ! l) pd)
       [0..<m_of P + 1] (\<lambda>_. 0)"

definition init_state :: "Problem \<Rightarrow> Schedule \<Rightarrow> sim_state" where
  "init_state P sch =
     \<lparr> sim_t = (\<lambda>i. if i = 0 then Fin 0 else PInf),
       sim_index = (\<lambda>_. 0),
       sim_location = (\<lambda>_. 0),
       sim_pendings = init_pendings P sch,
       sim_count = 0,
       sim_feasibility = True \<rparr>"

text \<open>The body of the inner \<open>for\<close> loop, for the lane \<open>l\<close>.\<close>

definition wait_predecessors :: "Problem \<Rightarrow> nat \<Rightarrow> (nat \<Rightarrow> dbl) \<Rightarrow> (nat \<Rightarrow> dbl)" where
  "wait_predecessors P j tv =
     fold (\<lambda>k tv'. tv'(j := dmax (tv' j) (dadd (tv' k) (Fin (p_of P k))))) (predecessors P j) tv"

definition update_pendings :: "Problem \<Rightarrow> nat \<Rightarrow> (nat \<Rightarrow> int) \<Rightarrow> (nat \<Rightarrow> int)" where
  "update_pendings P j pd = fold (\<lambda>k pd'. pd'(k := pd' k - 1)) (successors P j) pd"

definition lane_step :: "Problem \<Rightarrow> Schedule \<Rightarrow> nat \<Rightarrow> sim_state \<Rightarrow> sim_state" where
  "lane_step P sch l st =
     (if sim_index st l < length (sch ! l) then
        (let j = sch ! l ! sim_index st l in
         if sim_pendings st j = 0 then
           (let i = sim_location st l;
                tj = (if l \<noteq> 0
                      then dadd (dadd (sim_t st i) (Fin (p_of P i))) (Fin (s_of P i j l))
                      else Fin 0)
            in st\<lparr> sim_t := wait_predecessors P j ((sim_t st)(j := tj)),
                   sim_pendings := update_pendings P j (sim_pendings st),
                   sim_index := (sim_index st)(l := sim_index st l + 1),
                   sim_location := (sim_location st)(l := j),
                   sim_count := sim_count st + 1,
                   sim_feasibility := True \<rparr>)
         else st)
      else st)"

definition sim_round :: "Problem \<Rightarrow> Schedule \<Rightarrow> sim_state \<Rightarrow> sim_state" where
  "sim_round P sch st = fold (lane_step P sch) [0..<m_of P + 1] (st\<lparr> sim_feasibility := False \<rparr>)"

lemma lane_step_count_mono: "sim_count st \<le> sim_count (lane_step P sch l st)"
  by (simp add: lane_step_def Let_def)

lemma lane_step_progress:
  "sim_feasibility (lane_step P sch l st) \<Longrightarrow>
   sim_feasibility st \<or> sim_count st < sim_count (lane_step P sch l st)"
  by (simp add: lane_step_def Let_def split: if_splits)

lemma fold_lane_step_count_mono:
  "sim_count st \<le> sim_count (fold (lane_step P sch) ls st)"
proof (induction ls arbitrary: st)
  case Nil
  then show ?case by simp
next
  case (Cons l ls)
  have "sim_count st \<le> sim_count (lane_step P sch l st)"
    by (rule lane_step_count_mono)
  also have "\<dots> \<le> sim_count (fold (lane_step P sch) ls (lane_step P sch l st))"
    by (rule Cons.IH)
  finally show ?case by simp
qed

lemma fold_lane_step_progress:
  "sim_feasibility (fold (lane_step P sch) ls st) \<Longrightarrow>
   sim_feasibility st \<or> sim_count st < sim_count (fold (lane_step P sch) ls st)"
proof (induction ls arbitrary: st)
  case Nil
  then show ?case by simp
next
  case (Cons l ls)
  from Cons.IH [of "lane_step P sch l st"] Cons.prems
  have "sim_feasibility (lane_step P sch l st) \<or>
        sim_count (lane_step P sch l st) < sim_count (fold (lane_step P sch) ls (lane_step P sch l st))"
    by simp
  then show ?case
  proof
    assume "sim_feasibility (lane_step P sch l st)"
    from lane_step_progress [OF this] show ?thesis
    proof
      assume "sim_feasibility st" then show ?thesis ..
    next
      assume a: "sim_count st < sim_count (lane_step P sch l st)"
      have "sim_count (lane_step P sch l st) \<le> sim_count (fold (lane_step P sch) ls (lane_step P sch l st))"
        by (rule fold_lane_step_count_mono)
      with a show ?thesis by simp
    qed
  next
    assume "sim_count (lane_step P sch l st) < sim_count (fold (lane_step P sch) ls (lane_step P sch l st))"
    with lane_step_count_mono [of st P sch l] show ?thesis by simp
  qed
qed

lemma sim_round_progress:
  "sim_feasibility (sim_round P sch st) \<Longrightarrow> sim_count st < sim_count (sim_round P sch st)"
  using fold_lane_step_progress [of P sch "[0..<m_of P + 1]" "st\<lparr> sim_feasibility := False \<rparr>"]
  by (simp add: sim_round_def)

text \<open>The \<open>while (count < n && feasibility)\<close> loop; every round releases an operation or stops it.\<close>

function sim_loop :: "Problem \<Rightarrow> Schedule \<Rightarrow> sim_state \<Rightarrow> sim_state" where
  "sim_loop P sch st =
     (if sim_count st < n_of P \<and> sim_feasibility st
      then sim_loop P sch (sim_round P sch st)
      else st)"
  by pat_completeness auto
termination
proof (relation "measures [\<lambda>(P, sch, st). n_of P - sim_count st,
                           \<lambda>(P, sch, st). if sim_feasibility st then 1 else 0]")
  show "wf (measures [\<lambda>(P, sch, st). n_of P - sim_count st,
                      \<lambda>(P, sch, st). if sim_feasibility st then 1 else 0])"
    by simp
next
  fix P :: Problem and sch :: Schedule and st :: sim_state
  assume a: "sim_count st < n_of P \<and> sim_feasibility st"
  show "((P, sch, sim_round P sch st), (P, sch, st))
        \<in> measures [\<lambda>(P, sch, st). n_of P - sim_count st,
                    \<lambda>(P, sch, st). if sim_feasibility st then 1 else 0]"
  proof (cases "sim_feasibility (sim_round P sch st)")
    case True
    from sim_round_progress [OF True] a show ?thesis by auto
  next
    case False
    have "sim_count st \<le> sim_count (sim_round P sch st)"
      using fold_lane_step_count_mono [of "st\<lparr> sim_feasibility := False \<rparr>" P sch "[0..<m_of P + 1]"]
      by (simp add: sim_round_def)
    with False a show ?thesis by auto
  qed
qed

declare sim_loop.simps [simp del]

definition start_time :: "Problem \<Rightarrow> Schedule \<Rightarrow> nat \<Rightarrow> dbl" where
  "start_time P sch = sim_t (sim_loop P sch (init_state P sch))"

text \<open>\<open>Problem::makespan\<close>: the maximum of \<open>t[i] + p[i]\<close> over \<open>i = 1..n\<close>, from \<open>0.0\<close>.\<close>

definition makespan :: "Problem \<Rightarrow> Schedule \<Rightarrow> dbl" where
  "makespan P sch =
     (let t = start_time P sch in
      fold (\<lambda>i mk. dmax mk (dadd (t i) (Fin (p_of P i)))) [1..<n_of P + 1] (Fin 0))"

section \<open>\<open>common::evaluate\<close>\<close>

text \<open>
  The function computes a flag \<open>feasible\<close> (all entries of \<open>t\<close> finite) and never reads it;
  the value returned depends on the two loops only: the last operation of every
  non-empty lane \<open>1..m\<close>, then every operation of lane 0.
\<close>

definition evaluate :: "Problem \<Rightarrow> Schedule \<Rightarrow> evaluation" where
  "evaluate P sch =
     (let t = start_time P sch;
          (mk, sc) = fold (\<lambda>l (mk, sc).
                        if sch ! l \<noteq> []
                        then (let i = last (sch ! l)
                              in (dmax mk (dadd (t i) (Fin (p_of P i))),
                                  dadd sc (dadd (t i) (Fin (p_of P i)))))
                        else (mk, sc))
                      [1..<m_of P + 1] (Fin 0, Fin 0)
      in (fold (\<lambda>i mk'. dmax mk' (dadd (t i) (Fin (p_of P i)))) (sch ! 0) mk, sc))"

section \<open>\<open>Problem::is_feasible\<close>\<close>

text \<open>
  The counting loop returns at the first identifier outside \<open>1..n\<close> (\<open>None\<close> here),
  and counts the occurrences otherwise.
\<close>

definition count_assignment :: "Problem \<Rightarrow> Schedule \<Rightarrow> (nat \<Rightarrow> nat) option" where
  "count_assignment P sch =
     fold (\<lambda>l acc. fold (\<lambda>i acc'. case acc' of None \<Rightarrow> None
                                   | Some a \<Rightarrow> if i < 1 \<or> n_of P < i then None
                                               else Some (a(i := a i + 1)))
                     (sch ! l) acc)
       [0..<m_of P + 1] (Some (\<lambda>_. 0))"

definition precedence_check :: "Problem \<Rightarrow> (nat \<Rightarrow> dbl) \<Rightarrow> bool" where
  "precedence_check P t =
     list_all (\<lambda>j. list_all (\<lambda>i. \<not> less (t j) (t i)) (predecessors P j)) [1..<n_of P + 1]"

definition is_feasible :: "Problem \<Rightarrow> Schedule \<Rightarrow> bool" where
  "is_feasible P sch =
     (if length sch \<noteq> m_of P + 1 then False
      else case count_assignment P sch of
        None \<Rightarrow> False
      | Some assignment \<Rightarrow>
          if \<not> list_all (\<lambda>i. assignment i = 1) [1..<n_of P + 1] then False
          else if \<not> list_all (\<lambda>i. technology P i = REMOTE) (sch ! 0) then False
          else if \<not> list_all (\<lambda>l. list_all (\<lambda>i. technology P i = MANUAL) (sch ! l)) [1..<m_of P + 1]
               then False
          else precedence_check P (start_time P sch))"

section \<open>Neighborhoods\<close>

text \<open>
  An entry is a schedule with its evaluation.  \<open>erase_at\<close> and \<open>insert_at\<close> are
  \<open>vector::erase(begin() + i)\<close> and \<open>vector::insert(begin() + i, x)\<close>.
  Every \<open>best\<close> copies the entry into \<open>best_schedule, best_eval\<close>, runs its nested
  loops over the moves, and replaces the running best by a neighbor whose evaluation is
  \<open>less\<close> than the running best's (\<open>keep_best\<close>).  For each class the list
  \<open>\<dots>_neighbors\<close> holds the neighbor schedules in the order of the loops.
\<close>

type_synonym entry = "Schedule \<times> evaluation"

definition erase_at :: "'a list \<Rightarrow> nat \<Rightarrow> 'a list" where
  "erase_at xs i = take i xs @ drop (Suc i) xs"

definition insert_at :: "'a list \<Rightarrow> nat \<Rightarrow> 'a \<Rightarrow> 'a list" where
  "insert_at xs i x = take i xs @ x # drop i xs"

definition keep_best :: "Problem \<Rightarrow> Schedule \<Rightarrow> entry \<Rightarrow> entry" where
  "keep_best P neighbor_schedule best =
     (let neighbor_eval = evaluate P neighbor_schedule in
      if less_tuple neighbor_eval (snd best) then (neighbor_schedule, neighbor_eval) else best)"

text \<open>\<open>Shift::best\<close>: lanes \<open>0..m\<close>, origin index, target index different from it.\<close>

definition shift_move :: "Schedule \<Rightarrow> nat \<Rightarrow> nat \<Rightarrow> nat \<Rightarrow> Schedule" where
  "shift_move sch l idx_origin idx_target =
     sch[l := insert_at (erase_at (sch ! l) idx_origin) idx_target (sch ! l ! idx_origin)]"

definition Shift_neighbors :: "Problem \<Rightarrow> Schedule \<Rightarrow> Schedule list" where
  "Shift_neighbors P sch =
     concat (map (\<lambda>l.
       concat (map (\<lambda>idx_origin.
         concat (map (\<lambda>idx_target.
           if idx_target \<noteq> idx_origin then [shift_move sch l idx_origin idx_target] else [])
           [0..<length (sch ! l)]))
         [0..<length (sch ! l)]))
       [0..<m_of P + 1])"

text \<open>\<open>Exchange::best\<close>: lanes \<open>0..m\<close> with at least two operations, \<open>idx1 < idx2\<close>.\<close>

definition exchange_move :: "Schedule \<Rightarrow> nat \<Rightarrow> nat \<Rightarrow> nat \<Rightarrow> Schedule" where
  "exchange_move sch l idx1 idx2 =
     sch[l := (sch ! l)[idx1 := sch ! l ! idx2, idx2 := sch ! l ! idx1]]"

definition Exchange_neighbors :: "Problem \<Rightarrow> Schedule \<Rightarrow> Schedule list" where
  "Exchange_neighbors P sch =
     concat (map (\<lambda>l.
       if 2 \<le> length (sch ! l) then
         concat (map (\<lambda>idx1.
           map (\<lambda>idx2. exchange_move sch l idx1 idx2) [idx1 + 1..<length (sch ! l)])
           [0..<length (sch ! l) - 1])
       else [])
       [0..<m_of P + 1])"

text \<open>\<open>Reassignment::best\<close>: lanes \<open>1..m\<close>, every position of every other lane.\<close>

definition reassignment_move :: "Schedule \<Rightarrow> nat \<Rightarrow> nat \<Rightarrow> nat \<Rightarrow> nat \<Rightarrow> Schedule" where
  "reassignment_move sch l_origin idx_origin l_target idx_target =
     (let i = sch ! l_origin ! idx_origin;
          sch' = sch[l_origin := erase_at (sch ! l_origin) idx_origin]
      in sch'[l_target := insert_at (sch' ! l_target) idx_target i])"

definition Reassignment_neighbors :: "Problem \<Rightarrow> Schedule \<Rightarrow> Schedule list" where
  "Reassignment_neighbors P sch =
     concat (map (\<lambda>l_origin.
       concat (map (\<lambda>idx_origin.
         concat (map (\<lambda>l_target.
           if l_target \<noteq> l_origin then
             map (\<lambda>idx_target. reassignment_move sch l_origin idx_origin l_target idx_target)
               [0..<length (sch ! l_target) + 1]
           else [])
           [1..<m_of P + 1]))
         [0..<length (sch ! l_origin)]))
       [1..<m_of P + 1])"

text \<open>\<open>DirectSwap::best\<close>: non-empty lanes \<open>l1 < l2\<close> among \<open>1..m\<close>, every pair of positions.\<close>

definition direct_swap_move :: "Schedule \<Rightarrow> nat \<Rightarrow> nat \<Rightarrow> nat \<Rightarrow> nat \<Rightarrow> Schedule" where
  "direct_swap_move sch l1 idx1 l2 idx2 =
     (let i_1 = sch ! l1 ! idx1;
          i_2 = sch ! l2 ! idx2;
          sch' = sch[l1 := (sch ! l1)[idx1 := i_2]]
      in sch'[l2 := (sch' ! l2)[idx2 := i_1]])"

definition DirectSwap_neighbors :: "Problem \<Rightarrow> Schedule \<Rightarrow> Schedule list" where
  "DirectSwap_neighbors P sch =
     concat (map (\<lambda>l1.
       if 0 < length (sch ! l1) then
         concat (map (\<lambda>l2.
           if 0 < length (sch ! l2) then
             concat (map (\<lambda>idx1.
               map (\<lambda>idx2. direct_swap_move sch l1 idx1 l2 idx2) [0..<length (sch ! l2)])
               [0..<length (sch ! l1)])
           else [])
           [l1 + 1..<m_of P + 1])
       else [])
       [1..<m_of P + 1])"

text \<open>
  The virtual call \<open>neighborhood->best\<close>, for the four classes whose source is present.
\<close>

datatype Neighborhood = Shift | Exchange | Reassignment | DirectSwap

fun neighbors :: "Neighborhood \<Rightarrow> Problem \<Rightarrow> Schedule \<Rightarrow> Schedule list" where
  "neighbors Shift = Shift_neighbors"
| "neighbors Exchange = Exchange_neighbors"
| "neighbors Reassignment = Reassignment_neighbors"
| "neighbors DirectSwap = DirectSwap_neighbors"

definition best :: "Neighborhood \<Rightarrow> Problem \<Rightarrow> entry \<Rightarrow> entry" where
  "best N P entry = fold (keep_best P) (neighbors N P (fst entry)) entry"

section \<open>Local search\<close>

text \<open>
  A random generator is the sequence of the values its calls will return: \<open>draw\<close> is
  one call \<open>generator()\<close>.  A neighborhood in the list of \<open>vnd\<close> and \<open>rvnd\<close> is
  its function \<open>best\<close>.  Both loops may run forever in principle (the tolerant order on
  pairs has cycles), so they return an option: \<open>None\<close> is a run that never returns.
  The iterator \<open>k\<close> of \<open>vnd\<close> is an index into the list.
\<close>

type_synonym generator = "nat \<Rightarrow> nat"

definition draw :: "generator \<Rightarrow> nat \<times> generator" where
  "draw g = (g 0, \<lambda>i. g (Suc i))"

partial_function (option) vnd_loop ::
  "Problem \<Rightarrow> (Problem \<Rightarrow> entry \<Rightarrow> entry) list \<Rightarrow> nat \<Rightarrow> entry \<Rightarrow> entry option" where
  "vnd_loop P neighborhoods k incumbent =
     (if k < length neighborhoods then
        (if less_tuple (snd ((neighborhoods ! k) P incumbent)) (snd incumbent)
         then vnd_loop P neighborhoods 0 ((neighborhoods ! k) P incumbent)
         else vnd_loop P neighborhoods (k + 1) incumbent)
      else Some incumbent)"

definition vnd :: "Problem \<Rightarrow> entry \<Rightarrow> (Problem \<Rightarrow> entry \<Rightarrow> entry) list \<Rightarrow> entry option" where
  "vnd P entry neighborhoods = vnd_loop P neighborhoods 0 entry"

partial_function (option) rvnd_loop ::
  "Problem \<Rightarrow> (Problem \<Rightarrow> entry \<Rightarrow> entry) list \<Rightarrow> (Problem \<Rightarrow> entry \<Rightarrow> entry) list \<Rightarrow>
   entry \<Rightarrow> generator \<Rightarrow> (entry \<times> generator) option" where
  "rvnd_loop P neighborhoods available incumbent g =
     (if available \<noteq> [] then
        (if less_tuple (snd ((available ! (fst (draw g) mod length available)) P incumbent)) (snd incumbent)
         then rvnd_loop P neighborhoods neighborhoods
                ((available ! (fst (draw g) mod length available)) P incumbent) (snd (draw g))
         else rvnd_loop P neighborhoods (erase_at available (fst (draw g) mod length available))
                incumbent (snd (draw g)))
      else Some (incumbent, g))"

definition rvnd ::
  "Problem \<Rightarrow> entry \<Rightarrow> (Problem \<Rightarrow> entry \<Rightarrow> entry) list \<Rightarrow> generator \<Rightarrow> (entry \<times> generator) option" where
  "rvnd P entry neighborhoods g = rvnd_loop P neighborhoods neighborhoods entry g"


section \<open>Greedy\<close>

text \<open>
  \<open>Greedy::solve\<close>.  The sets \<open>S_manual\<close> and \<open>S_remote\<close> are lists in increasing
  order.  One pass over \<open>S_remote\<close> (\<open>remote_pass\<close>) schedules every operation whose
  \<open>gamma\<close> is 0 when the iterator reaches it and keeps the others; it returns the kept
  operations, the flag \<open>stop\<close> and the state.  \<open>choose_pair\<close> is the double loop
  over \<open>S_manual\<close> and the teams, from \<open>criterion = numeric_limits<double>::max()\<close>
  with \<open>j\<close> and \<open>l\<close> not initialised: when no pair is ever taken the code reads them
  uninitialised, which is the error \<open>UninitializedChoice\<close>.  The outer loop may run
  forever (operations left and none ready), so \<open>greedy_loop\<close> returns an option.
\<close>

definition DBL_MAX :: real where
  "DBL_MAX = (2 ^ 53 - 1) * 2 ^ 971"

record greedy_state =
  g_schedule :: Schedule
  g_makespan :: real
  S_manual :: "nat list"
  S_remote :: "nat list"
  g_t :: "nat \<Rightarrow> real"
  gamma :: "nat \<Rightarrow> int"
  phi :: "nat \<Rightarrow> nat"

datatype greedy_error = UninitializedChoice

definition greedy_init :: "Problem \<Rightarrow> greedy_state" where
  "greedy_init P =
     fold (\<lambda>i st.
        (let st1 = st\<lparr> gamma := (gamma st)(i := int (length (predecessors P i))) \<rparr> in
         if technology P i = MANUAL then st1\<lparr> S_manual := S_manual st1 @ [i] \<rparr>
         else if technology P i = REMOTE then st1\<lparr> S_remote := S_remote st1 @ [i] \<rparr>
         else st1))
       [1..<n_of P + 1]
       \<lparr> g_schedule = create_empty_schedule (m_of P), g_makespan = 0, S_manual = [], S_remote = [],
         g_t = (\<lambda>_. 0), gamma = (\<lambda>_. 0), phi = (\<lambda>_. 0) \<rparr>"

definition wait_scheduled :: "Problem \<Rightarrow> nat \<Rightarrow> (nat \<Rightarrow> real) \<Rightarrow> (nat \<Rightarrow> real)" where
  "wait_scheduled P j tv =
     fold (\<lambda>i tv'. tv'(j := max (tv' j) (tv' i + p_of P i))) (predecessors P j) tv"

definition schedule_remote :: "Problem \<Rightarrow> nat \<Rightarrow> greedy_state \<Rightarrow> greedy_state" where
  "schedule_remote P j st =
     st\<lparr> g_t := wait_scheduled P j ((g_t st)(j := 0)),
         gamma := update_pendings P j (gamma st),
         g_schedule := (g_schedule st)[0 := g_schedule st ! 0 @ [j]] \<rparr>"

fun remote_pass :: "Problem \<Rightarrow> nat list \<Rightarrow> bool \<Rightarrow> greedy_state \<Rightarrow> nat list \<times> bool \<times> greedy_state" where
  "remote_pass P [] stop st = ([], stop, st)"
| "remote_pass P (j # js) stop st =
     (if gamma st j = 0
      then remote_pass P js False (schedule_remote P j st)
      else (case remote_pass P js stop st of (kept, stop', st') \<Rightarrow> (j # kept, stop', st')))"

lemma replicate_numeral_unfold:
  "replicate (numeral k) x = x # replicate (pred_numeral k) x"
  by (simp add: numeral_eq_Suc)

lemma remote_pass_length:
  "length (fst (remote_pass P js stop st)) \<le> length js \<and>
   (\<not> fst (snd (remote_pass P js stop st)) \<longrightarrow> stop \<longrightarrow> length (fst (remote_pass P js stop st)) < length js)"
proof (induction js arbitrary: stop st)
  case Nil
  then show ?case by simp
next
  case (Cons j js)
  show ?case
  proof (cases "gamma st j = 0")
    case True
    with Cons.IH [of False "schedule_remote P j st"] show ?thesis by auto
  next
    case False
    with Cons.IH [of stop st] show ?thesis by (auto split: prod.splits)
  qed
qed

lemma remote_pass_shrinks:
  "remote_pass P js True st = (kept, False, st') \<Longrightarrow> length kept < length js"
  using remote_pass_length [of P js True st] by simp

function remote_drain :: "Problem \<Rightarrow> greedy_state \<Rightarrow> greedy_state" where
  "remote_drain P st =
     (case remote_pass P (S_remote st) True st of
        (kept, stop, st') \<Rightarrow>
          if \<not> stop then remote_drain P (st'\<lparr> S_remote := kept \<rparr>) else st'\<lparr> S_remote := kept \<rparr>)"
  by pat_completeness auto
termination
  apply (relation "measure (\<lambda>(P, st). length (S_remote st))")
   apply simp
  apply (auto dest: remote_pass_shrinks remote_pass_shrinks [OF sym])
  done

declare remote_drain.simps [simp del]

definition candidates :: "Problem \<Rightarrow> greedy_state \<Rightarrow> (nat \<times> nat) list" where
  "candidates P st =
     concat (map (\<lambda>j_trial. if gamma st j_trial = 0
                             then map (\<lambda>l_trial. (j_trial, l_trial)) [1..<m_of P + 1]
                             else [])
                 (S_manual st))"

definition criterion_of :: "Problem \<Rightarrow> greedy_state \<Rightarrow> nat \<Rightarrow> nat \<Rightarrow> real" where
  "criterion_of P st j l = g_t st (phi st l) + p_of P (phi st l) + s_of P (phi st l) j l"

definition choose_pair :: "Problem \<Rightarrow> greedy_state \<Rightarrow> real \<times> (nat \<times> nat) option" where
  "choose_pair P st =
     fold (\<lambda>(j_trial, l_trial) (criterion, jl).
             if criterion_of P st j_trial l_trial < criterion
             then (criterion_of P st j_trial l_trial, Some (j_trial, l_trial))
             else (criterion, jl))
          (candidates P st) (DBL_MAX, None)"

definition schedule_manual :: "Problem \<Rightarrow> nat \<Rightarrow> nat \<Rightarrow> greedy_state \<Rightarrow> greedy_state" where
  "schedule_manual P j l st =
     (let tv = wait_scheduled P j ((g_t st)(j := criterion_of P st j l)) in
      st\<lparr> g_t := tv,
          gamma := update_pendings P j (gamma st),
          g_schedule := (g_schedule st)[l := g_schedule st ! l @ [j]],
          phi := (phi st)(l := j),
          g_makespan := max (g_makespan st) (tv j + p_of P j),
          S_manual := removeAll j (S_manual st) \<rparr>)"

partial_function (option) greedy_loop :: "Problem \<Rightarrow> greedy_state \<Rightarrow> (greedy_error + greedy_state) option" where
  "greedy_loop P st =
     (if length (S_manual st) + length (S_remote st) > 0 then
        (if length (S_manual (remote_drain P st)) > 0 then
           (case snd (choose_pair P (remote_drain P st)) of
              None \<Rightarrow> Some (Inl UninitializedChoice)
            | Some (j, l) \<Rightarrow> greedy_loop P (schedule_manual P j l (remote_drain P st)))
         else greedy_loop P (remote_drain P st))
      else Some (Inr st))"

definition Greedy_solve :: "Problem \<Rightarrow> (greedy_error + Schedule \<times> real) option" where
  "Greedy_solve P =
     (case greedy_loop P (greedy_init P) of
        None \<Rightarrow> None
      | Some (Inl e) \<Rightarrow> Some (Inl e)
      | Some (Inr st) \<Rightarrow> Some (Inr (g_schedule st, g_makespan st)))"

section \<open>ILS\<close>

text \<open>
  \<open>std::shuffle\<close> is a parameter: a function from a list and a generator to a list and
  the generator after it.  \<open>try_insertions\<close> is the loop over the shuffled insertion
  positions of \<open>ILS::perturb\<close>: insert, evaluate, keep the schedule when the makespan is
  finite, erase the inserted element otherwise.  \<open>chain_step\<close> is the body of the loop
  over the chain, \<open>perturb\<close> the whole function.

  In \<open>ILS::solve\<close> the list of neighborhoods ends with \<open>Swap\<close>, whose source is not
  present: its \<open>best\<close> is the parameter \<open>swap_best\<close>.  \<open>perturbation_phase\<close> is
  the perturbation of the incumbent, repeated \<open>perturbation_passes\<close> times.
  \<open>ILS_trial\<close> is the loop body up to the local search: it returns \<open>perturbed\<close> and
  \<open>trial\<close>, and the local search is called on \<open>start\<close>, as in the source.
  \<open>ILS_iteration\<close> adds the improvement test and the counters.
\<close>

type_synonym shuffle = "nat list \<Rightarrow> generator \<Rightarrow> nat list \<times> generator"

fun try_insertions ::
  "Problem \<Rightarrow> nat \<Rightarrow> nat \<Rightarrow> nat list \<Rightarrow> Schedule \<times> evaluation \<Rightarrow> bool \<times> Schedule \<times> evaluation" where
  "try_insertions P l_target operation [] (schedule, evaluation) = (False, schedule, evaluation)"
| "try_insertions P l_target operation (idx_target # indexes) (schedule, evaluation) =
     (let schedule' = schedule[l_target := insert_at (schedule ! l_target) idx_target operation];
          current_evaluation = evaluate P schedule'
      in if fst current_evaluation \<noteq> PInf
         then (True, schedule', current_evaluation)
         else try_insertions P l_target operation indexes
                (schedule'[l_target := erase_at (schedule' ! l_target) idx_target], evaluation))"

definition chain_step ::
  "Problem \<Rightarrow> shuffle \<Rightarrow> nat list \<Rightarrow> nat \<Rightarrow> entry \<times> generator \<Rightarrow> entry \<times> generator" where
  "chain_step P shuffle chain idx = (\<lambda>((schedule, evaluation), g).
     (let l_origin = chain ! idx;
          l_target = chain ! ((idx + 1) mod length chain)
      in if schedule ! l_origin \<noteq> [] then
           (let idx_origin = fst (draw g) mod length (schedule ! l_origin);
                operation = schedule ! l_origin ! idx_origin;
                schedule1 = schedule[l_origin := erase_at (schedule ! l_origin) idx_origin];
                (indexes, g') = shuffle [0..<length (schedule1 ! l_target) + 1] (snd (draw g))
            in case try_insertions P l_target operation indexes (schedule1, evaluation) of
                 (success, schedule2, evaluation2) \<Rightarrow>
                   if \<not> success
                   then ((schedule2[l_origin := insert_at (schedule2 ! l_origin) idx_origin operation],
                          evaluation2), g')
                   else ((schedule2, evaluation2), g'))
         else ((schedule, evaluation), g)))"

definition perturb :: "Problem \<Rightarrow> shuffle \<Rightarrow> entry \<Rightarrow> generator \<Rightarrow> entry \<times> generator" where
  "perturb P shuffle entry g =
     (let (chain, g') = shuffle [1..<m_of P + 1] g
      in fold (chain_step P shuffle chain) [0..<length chain] (entry, g'))"

definition local_search ::
  "bool \<Rightarrow> Problem \<Rightarrow> entry \<Rightarrow> (Problem \<Rightarrow> entry \<Rightarrow> entry) list \<Rightarrow> generator \<Rightarrow> (entry \<times> generator) option" where
  "local_search randomized_vnd P entry neighborhoods g =
     (if randomized_vnd then rvnd P entry neighborhoods g
      else map_option (\<lambda>r. (r, g)) (vnd P entry neighborhoods))"

definition ILS_neighborhoods :: "(Problem \<Rightarrow> entry \<Rightarrow> entry) \<Rightarrow> (Problem \<Rightarrow> entry \<Rightarrow> entry) list" where
  "ILS_neighborhoods swap_best =
     [best Shift, best Exchange, best Reassignment, best DirectSwap, swap_best]"

record ils_state =
  ils_incumbent :: entry
  ils_iteration :: nat
  ils_perturbation_passes :: nat
  ils_iteration_last_improvement :: nat
  ils_generator :: generator

definition perturbation_phase ::
  "Problem \<Rightarrow> shuffle \<Rightarrow> entry \<Rightarrow> nat \<Rightarrow> generator \<Rightarrow> entry \<times> generator" where
  "perturbation_phase P shuffle incumbent perturbation_passes g =
     fold (\<lambda>i (perturbed, g'). perturb P shuffle perturbed g') [1..<perturbation_passes]
       (perturb P shuffle incumbent g)"

definition ILS_trial ::
  "Problem \<Rightarrow> bool \<Rightarrow> (Problem \<Rightarrow> entry \<Rightarrow> entry) list \<Rightarrow> shuffle \<Rightarrow> entry \<Rightarrow> ils_state \<Rightarrow>
   entry \<times> (entry \<times> generator) option" where
  "ILS_trial P randomized_vnd neighborhoods shuffle start st =
     (let (perturbed, g') = perturbation_phase P shuffle (ils_incumbent st)
                              (ils_perturbation_passes st) (ils_generator st)
      in (perturbed, local_search randomized_vnd P start neighborhoods g'))"

definition ILS_iteration ::
  "Problem \<Rightarrow> bool \<Rightarrow> (Problem \<Rightarrow> entry \<Rightarrow> entry) list \<Rightarrow> shuffle \<Rightarrow> entry \<Rightarrow> ils_state \<Rightarrow>
   ils_state option" where
  "ILS_iteration P randomized_vnd neighborhoods shuffle start st =
     (case snd (ILS_trial P randomized_vnd neighborhoods shuffle start st) of
        None \<Rightarrow> None
      | Some (trial, g') \<Rightarrow>
          Some (if less_tuple (snd trial) (snd (ils_incumbent st))
                then st\<lparr> ils_incumbent := trial,
                         ils_iteration := ils_iteration st + 1,
                         ils_iteration_last_improvement := ils_iteration st + 1,
                         ils_perturbation_passes := 1,
                         ils_generator := g' \<rparr>
                else st\<lparr> ils_iteration := ils_iteration st + 1,
                         ils_perturbation_passes := ils_perturbation_passes st + 1,
                         ils_generator := g' \<rparr>))"

section \<open>Concrete instances\<close>

text \<open>
  Two operations, one team, the edge \<open>1 \<rightarrow> 2\<close>, processing time 1, no travel time:
  once with both switches remote, once with both manual.
\<close>

definition P_remote :: Problem where
  "P_remote = \<lparr> n_of = 2, m_of = 1, technology = (\<lambda>_. REMOTE),
                 p_of = (\<lambda>i. if i = 0 then 0 else 1), s_of = (\<lambda>_ _ _. 0),
                 predecessors = (\<lambda>j. if j = 2 then [1] else []),
                 successors = (\<lambda>i. if i = 1 then [2] else []) \<rparr>"

definition P_manual :: Problem where
  "P_manual = \<lparr> n_of = 2, m_of = 1, technology = (\<lambda>_. MANUAL),
                 p_of = (\<lambda>i. if i = 0 then 0 else 1), s_of = (\<lambda>_ _ _. 0),
                 predecessors = (\<lambda>j. if j = 2 then [1] else []),
                 successors = (\<lambda>i. if i = 1 then [2] else []) \<rparr>"

text \<open>Two manual operations, two teams, no precedence; every travel time is 1.\<close>

definition P_sym :: Problem where
  "P_sym = \<lparr> n_of = 2, m_of = 2, technology = (\<lambda>_. MANUAL),
              p_of = (\<lambda>i. if i = 0 then 0 else 1), s_of = (\<lambda>_ _ _. 1),
              predecessors = (\<lambda>_. []), successors = (\<lambda>_. []) \<rparr>"

text \<open>
  Three manual operations, three teams, no precedence, processing time 0.  From the
  depot, team \<open>l\<close> reaches operation \<open>l\<close> in 3, 10 and 5; team 2 goes from 2 to 1 in
  0.000009 and from 2 to 3 in 0.000018; every other travel takes 100.
\<close>

definition P_cycle :: Problem where
  "P_cycle = \<lparr> n_of = 3, m_of = 3, technology = (\<lambda>_. MANUAL), p_of = (\<lambda>_. 0),
      s_of = (\<lambda>i j l. if i = 0 \<and> j = 1 \<and> l = 1 then 3
                      else if i = 0 \<and> j = 2 \<and> l = 2 then 10
                      else if i = 0 \<and> j = 3 \<and> l = 3 then 5
                      else if i = 2 \<and> j = 1 \<and> l = 2 then 9 / 1000000
                      else if i = 2 \<and> j = 3 \<and> l = 2 then 18 / 1000000
                      else 100),
      predecessors = (\<lambda>_. []), successors = (\<lambda>_. []) \<rparr>"

text \<open>A shuffle that reverses the list and draws nothing: one of the outcomes of \<open>std::shuffle\<close>.\<close>

definition shuffle_rev :: shuffle where
  "shuffle_rev xs g = (rev xs, g)"


subsection \<open>Evaluation by rewriting\<close>

lemmas sim_eval =
  start_time_def init_state_def init_pendings_def sim_loop.simps sim_round_def lane_step_def
  wait_predecessors_def update_pendings_def Let_def dmax_def upt_rec

lemmas move_eval =
  best_def keep_best_def Shift_neighbors_def Exchange_neighbors_def Reassignment_neighbors_def
  DirectSwap_neighbors_def shift_move_def exchange_move_def reassignment_move_def
  direct_swap_move_def erase_at_def insert_at_def less_tuple_def compare_tuple_def THRESHOLD_def
  Let_def upt_rec

lemmas greedy_eval =
  Greedy_solve_def greedy_loop.simps greedy_init_def schedule_manual_def choose_pair_def
  criterion_of_def candidates_def remote_drain.simps schedule_remote_def wait_scheduled_def
  update_pendings_def create_empty_schedule_def DBL_MAX_def Let_def upt_rec
  replicate_numeral_unfold

lemmas ils_eval =
  ILS_trial_def ILS_iteration_def perturbation_phase_def perturb_def chain_step_def
  local_search_def ILS_neighborhoods_def draw_def vnd_def vnd_loop.simps

section \<open>The evaluation of a deadlocked schedule\<close>

text \<open>
  Claim C2.  On \<open>P_remote\<close> the schedule with lane 0 equal to \<open>[2, 1]\<close> (what
  \<open>Shift\<close> builds from \<open>[1, 2]\<close>) stops the simulator with no operation released:
  both start times stay infinite.  \<open>evaluate\<close> returns an infinite makespan and the
  sum of completions 0, since the sum runs over the lanes \<open>1..m\<close> only and the flag
  \<open>feasible\<close> is not read.
\<close>

theorem evaluate_deadlock_lane0:
  "sim_count (sim_loop P_remote [[2, 1], []] (init_state P_remote [[2, 1], []])) = 0 \<and>
   start_time P_remote [[2, 1], []] 1 = PInf \<and>
   start_time P_remote [[2, 1], []] 2 = PInf \<and>
   evaluate P_remote [[2, 1], []] = (PInf, Fin 0)"
  by (simp add: evaluate_def P_remote_def sim_eval)

section \<open>The feasibility check on a deadlocked schedule\<close>

text \<open>
  Claim C3.  On \<open>P_manual\<close> the schedule whose only team performs 2 before its
  predecessor 1 stops the simulator at once; both start times are infinite, and
  \<open>is_feasible\<close> returns true: \<open>less\<close> of two infinite values is false, so the
  precedence loop finds nothing.
\<close>

theorem is_feasible_accepts_deadlock:
  "is_feasible P_manual [[], [2, 1]] \<and>
   start_time P_manual [[], [2, 1]] 1 = PInf \<and>
   start_time P_manual [[], [2, 1]] 2 = PInf"
  by (simp add: is_feasible_def count_assignment_def precedence_check_def less_def
      P_manual_def sim_eval)

section \<open>Local optimality of \<open>vnd\<close> and \<open>rvnd\<close>\<close>






lemma evaluate_P_manual:
  "evaluate P_manual [[], [Suc 0, 2]] = (Fin 2, Fin 2)"
  "evaluate P_manual [[], [2, Suc 0]] = (PInf, PInf)"
  by (simp_all add: evaluate_def P_manual_def sim_eval)

lemma m_of_P_manual: "m_of P_manual = 1"
  by (simp add: P_manual_def)





section \<open>What \<open>best\<close> returns\<close>

lemma fold_keep_best_unchanged:
  "list_all (\<lambda>nb. \<not> less_tuple (evaluate P nb) (snd e)) ns \<Longrightarrow> fold (keep_best P) ns e = e"
  by (induction ns) (simp_all add: keep_best_def)

lemma fold_keep_best_result:
  "(fold (keep_best P) ns e = e \<and> list_all (\<lambda>nb. \<not> less_tuple (evaluate P nb) (snd e)) ns) \<or>
   (\<exists>pre nb post. ns = pre @ nb # post \<and> fold (keep_best P) ns e = (nb, evaluate P nb) \<and>
      less_tuple (evaluate P nb) (snd (fold (keep_best P) pre e)) \<and>
      list_all (\<lambda>y. \<not> less_tuple (evaluate P y) (evaluate P nb)) post)"
proof (induction ns rule: rev_induct)
  case Nil
  then show ?case by simp
next
  case (snoc x ns)
  let ?b = "fold (keep_best P) ns e"
  show ?case
  proof (cases "less_tuple (evaluate P x) (snd ?b)")
    case True
    then have "fold (keep_best P) (ns @ [x]) e = (x, evaluate P x)"
      by (simp add: keep_best_def)
    with True have "ns @ [x] = ns @ x # [] \<and> fold (keep_best P) (ns @ [x]) e = (x, evaluate P x) \<and>
      less_tuple (evaluate P x) (snd (fold (keep_best P) ns e)) \<and>
      list_all (\<lambda>y. \<not> less_tuple (evaluate P y) (evaluate P x)) []" by simp
    then show ?thesis by blast
  next
    case False
    then have same: "fold (keep_best P) (ns @ [x]) e = ?b"
      by (simp add: keep_best_def)
    from snoc.IH show ?thesis
    proof
      assume a: "?b = e \<and> list_all (\<lambda>nb. \<not> less_tuple (evaluate P nb) (snd e)) ns"
      with False same show ?thesis by simp
    next
      assume "\<exists>pre nb post. ns = pre @ nb # post \<and> ?b = (nb, evaluate P nb) \<and>
        less_tuple (evaluate P nb) (snd (fold (keep_best P) pre e)) \<and>
        list_all (\<lambda>y. \<not> less_tuple (evaluate P y) (evaluate P nb)) post"
      then obtain pre nb post where h: "ns = pre @ nb # post" "?b = (nb, evaluate P nb)"
        "less_tuple (evaluate P nb) (snd (fold (keep_best P) pre e))"
        "list_all (\<lambda>y. \<not> less_tuple (evaluate P y) (evaluate P nb)) post" by blast
      from h False have "ns @ [x] = pre @ nb # (post @ [x]) \<and>
        fold (keep_best P) (ns @ [x]) e = (nb, evaluate P nb) \<and>
        less_tuple (evaluate P nb) (snd (fold (keep_best P) pre e)) \<and>
        list_all (\<lambda>y. \<not> less_tuple (evaluate P y) (evaluate P nb)) (post @ [x])"
        using same by simp
      then show ?thesis by blast
    qed
  qed
qed


text \<open>
  Claim C6, as the code has it, for each of the four neighborhoods \<open>N\<close>.  When no
  neighbor's evaluation is \<open>less\<close> than the entry's, \<open>best\<close> returns the entry
  unchanged.  Otherwise it returns a neighbor with its evaluation: the one that replaced
  the running best last, \<open>less\<close> than the running best before it, and such that no
  neighbor enumerated after it is \<open>less\<close> than it.  Nothing is said about its order
  with the entry or with the neighbors before it: the tolerant order on pairs is not
  transitive.
\<close>

theorem best_scan:
  "(list_all (\<lambda>nb. \<not> less_tuple (evaluate P nb) (snd entry)) (neighbors N P (fst entry)) \<longrightarrow>
      best N P entry = entry) \<and>
   (\<not> list_all (\<lambda>nb. \<not> less_tuple (evaluate P nb) (snd entry)) (neighbors N P (fst entry)) \<longrightarrow>
      (\<exists>pre nb post. neighbors N P (fst entry) = pre @ nb # post \<and>
         best N P entry = (nb, evaluate P nb) \<and>
         less_tuple (evaluate P nb) (snd (fold (keep_best P) pre entry)) \<and>
         list_all (\<lambda>y. \<not> less_tuple (evaluate P y) (evaluate P nb)) post))"
proof (intro conjI impI)
  assume "list_all (\<lambda>nb. \<not> less_tuple (evaluate P nb) (snd entry)) (neighbors N P (fst entry))"
  then show "best N P entry = entry"
    unfolding best_def by (rule fold_keep_best_unchanged)
next
  assume a: "\<not> list_all (\<lambda>nb. \<not> less_tuple (evaluate P nb) (snd entry)) (neighbors N P (fst entry))"
  from fold_keep_best_result [of P "neighbors N P (fst entry)" entry] a
  show "\<exists>pre nb post. neighbors N P (fst entry) = pre @ nb # post \<and>
         best N P entry = (nb, evaluate P nb) \<and>
         less_tuple (evaluate P nb) (snd (fold (keep_best P) pre entry)) \<and>
         list_all (\<lambda>y. \<not> less_tuple (evaluate P y) (evaluate P nb)) post"
    unfolding best_def by blast
qed

lemma neighbors_Shift_P_manual:
  "Shift_neighbors P_manual [[], [2, Suc 0]] = [[[], [Suc 0, 2]], [[], [Suc 0, 2]]]"
  "Shift_neighbors P_manual [[], [Suc 0, 2]] = [[[], [2, Suc 0]], [[], [2, Suc 0]]]"
  by (simp_all add: move_eval m_of_P_manual)

theorem best_scan_witness:
  "list_all (\<lambda>nb. \<not> less_tuple (evaluate P_manual nb) (Fin 2, Fin 2)) (neighbors Shift P_manual [[], [1, 2]]) \<and>
   best Shift P_manual ([[], [1, 2]], (Fin 2, Fin 2)) = ([[], [1, 2]], (Fin 2, Fin 2)) \<and>
   \<not> list_all (\<lambda>nb. \<not> less_tuple (evaluate P_manual nb) (PInf, PInf)) (neighbors Shift P_manual [[], [2, 1]]) \<and>
   (\<exists>pre nb post. neighbors Shift P_manual [[], [2, 1]] = pre @ nb # post \<and>
      best Shift P_manual ([[], [2, 1]], (PInf, PInf)) = (nb, evaluate P_manual nb) \<and>
      less_tuple (evaluate P_manual nb) (snd (fold (keep_best P_manual) pre ([[], [2, 1]], (PInf, PInf)))) \<and>
      list_all (\<lambda>y. \<not> less_tuple (evaluate P_manual y) (evaluate P_manual nb)) post)"
proof -
  have a: "list_all (\<lambda>nb. \<not> less_tuple (evaluate P_manual nb) (Fin 2, Fin 2)) (neighbors Shift P_manual [[], [1, 2]])"
    by (simp add: neighbors_Shift_P_manual evaluate_P_manual less_tuple_def compare_tuple_def Let_def)
  have b: "\<not> list_all (\<lambda>nb. \<not> less_tuple (evaluate P_manual nb) (PInf, PInf)) (neighbors Shift P_manual [[], [2, 1]])"
    by (simp add: neighbors_Shift_P_manual evaluate_P_manual less_tuple_def compare_tuple_def Let_def)
  from a best_scan [of P_manual "([[], [1, 2]], (Fin 2, Fin 2))" Shift]
  have "best Shift P_manual ([[], [1, 2]], (Fin 2, Fin 2)) = ([[], [1, 2]], (Fin 2, Fin 2))" by simp
  moreover from b best_scan [of P_manual "([[], [2, 1]], (PInf, PInf))" Shift]
  have "\<exists>pre nb post. neighbors Shift P_manual [[], [2, 1]] = pre @ nb # post \<and>
      best Shift P_manual ([[], [2, 1]], (PInf, PInf)) = (nb, evaluate P_manual nb) \<and>
      less_tuple (evaluate P_manual nb) (snd (fold (keep_best P_manual) pre ([[], [2, 1]], (PInf, PInf)))) \<and>
      list_all (\<lambda>y. \<not> less_tuple (evaluate P_manual y) (evaluate P_manual nb)) post"
    by simp
  ultimately show ?thesis using a b by blast
qed

lemma evaluate_P_cycle:
  "evaluate P_cycle [[], [Suc 0], [2], [3]] = (Fin 10, Fin 18)"
  "evaluate P_cycle [[], [], [Suc 0, 2], [3]] = (Fin 200, Fin 205)"
  "evaluate P_cycle [[], [], [2, Suc 0], [3]] = (Fin (10 + 9 / 1000000), Fin (15 + 9 / 1000000))"
  "evaluate P_cycle [[], [], [2], [Suc 0, 3]] = (Fin 200, Fin 210)"
  "evaluate P_cycle [[], [], [2], [3, Suc 0]] = (Fin 105, Fin 115)"
  "evaluate P_cycle [[], [2, Suc 0], [], [3]] = (Fin 200, Fin 205)"
  "evaluate P_cycle [[], [Suc 0, 2], [], [3]] = (Fin 103, Fin 108)"
  "evaluate P_cycle [[], [Suc 0], [], [2, 3]] = (Fin 200, Fin 203)"
  "evaluate P_cycle [[], [Suc 0], [], [3, 2]] = (Fin 105, Fin 108)"
  "evaluate P_cycle [[], [3, Suc 0], [2], []] = (Fin 200, Fin 210)"
  "evaluate P_cycle [[], [Suc 0, 3], [2], []] = (Fin 103, Fin 113)"
  "evaluate P_cycle [[], [Suc 0], [3, 2], []] = (Fin 200, Fin 203)"
  "evaluate P_cycle [[], [Suc 0], [2, 3], []] = (Fin (10 + 18 / 1000000), Fin (13 + 18 / 1000000))"
  by (simp_all add: evaluate_def P_cycle_def sim_eval)

lemma m_of_P_cycle: "m_of P_cycle = 3"
  by (simp add: P_cycle_def)

lemma best_Reassignment_P_cycle:
  "best Reassignment P_cycle ([[], [1], [2], [3]], (Fin 10, Fin 18))
     = ([[], [1], [2, 3], []], (Fin (10 + 18 / 1000000), Fin (13 + 18 / 1000000)))"
  by (simp add: move_eval evaluate_P_cycle m_of_P_cycle)

text \<open>
  The claim as stated fails on \<open>P_cycle\<close>, from the schedule that gives operation
  \<open>l\<close> to team \<open>l\<close>.  Moving 1 behind 2 is \<open>less\<close> than the entry (makespan
  within the tolerance, smaller sum); moving 3 behind 2 is \<open>less\<close> than that neighbor
  in the same way, and is what \<open>Reassignment::best\<close> returns; yet its makespan exceeds
  the entry's by more than the tolerance, so it is not \<open>less\<close> than the entry: the
  entry is \<open>less\<close> than it.
\<close>

theorem best_not_less_than_entry:
  "evaluate P_cycle [[], [1], [2], [3]] = (Fin 10, Fin 18) \<and>
   [[], [], [2, 1], [3]] \<in> set (neighbors Reassignment P_cycle [[], [1], [2], [3]]) \<and>
   less_tuple (evaluate P_cycle [[], [], [2, 1], [3]]) (Fin 10, Fin 18) \<and>
   best Reassignment P_cycle ([[], [1], [2], [3]], (Fin 10, Fin 18))
     = ([[], [1], [2, 3], []], (Fin (10 + 18 / 1000000), Fin (13 + 18 / 1000000))) \<and>
   \<not> less_tuple (Fin (10 + 18 / 1000000), Fin (13 + 18 / 1000000)) (Fin 10, Fin 18) \<and>
   less_tuple (Fin 10, Fin 18) (Fin (10 + 18 / 1000000), Fin (13 + 18 / 1000000))"
proof -
  have "[[], [], [2, 1], [3]] \<in> set (neighbors Reassignment P_cycle [[], [1], [2], [3]])"
    by (simp add: move_eval m_of_P_cycle)
  moreover have "less_tuple (evaluate P_cycle [[], [], [2, 1], [3]]) (Fin 10, Fin 18)"
    using evaluate_P_cycle(3) by (simp add: less_tuple_def compare_tuple_def THRESHOLD_def)
  moreover have "\<not> less_tuple (Fin (10 + 18 / 1000000), Fin (13 + 18 / 1000000)) (Fin 10, Fin 18)"
    by (simp add: less_tuple_def compare_tuple_def THRESHOLD_def)
  moreover have "less_tuple (Fin 10, Fin 18) (Fin (10 + 18 / 1000000), Fin (13 + 18 / 1000000))"
    by (simp add: less_tuple_def compare_tuple_def THRESHOLD_def)
  ultimately show ?thesis
    using evaluate_P_cycle(1) best_Reassignment_P_cycle by simp
qed

section \<open>The trial of an ILS iteration\<close>

lemma evaluate_P_sym:
  "evaluate P_sym [[], [Suc 0], [2]] = (Fin 2, Fin 4)"
  "evaluate P_sym [[], [2], [Suc 0]] = (Fin 2, Fin 4)"
  "evaluate P_sym [[], [Suc 0, 2], []] = (Fin 4, Fin 4)"
  "evaluate P_sym [[], [2, Suc 0], []] = (Fin 4, Fin 4)"
  "evaluate P_sym [[], [], [Suc 0, 2]] = (Fin 4, Fin 4)"
  "evaluate P_sym [[], [], [2, Suc 0]] = (Fin 4, Fin 4)"
  by (simp_all add: evaluate_def P_sym_def sim_eval)

lemma m_of_P_sym: "m_of P_sym = 2"
  by (simp add: P_sym_def)

lemma Greedy_solve_P_sym: "Greedy_solve P_sym = Some (Inr ([[], [1], [2]], 2))"
  by (simp add: greedy_eval P_sym_def)

lemma perturbation_phase_P_sym:
  "perturbation_phase P_sym shuffle_rev ([[], [1], [2]], (Fin 2, Fin 4)) 1 (\<lambda>_. 0)
     = (([[], [2], [1]], (Fin 2, Fin 4)), (\<lambda>_. 0))"
  by (simp add: ils_eval shuffle_rev_def move_eval evaluate_P_sym m_of_P_sym)

lemma local_search_P_sym:
  "local_search False P_sym ([[], [1], [2]], (Fin 2, Fin 4)) (ILS_neighborhoods (best DirectSwap)) g
     = Some (([[], [1], [2]], (Fin 2, Fin 4)), g)"
  "local_search False P_sym ([[], [2], [1]], (Fin 2, Fin 4)) (ILS_neighborhoods (best DirectSwap)) g
     = Some (([[], [2], [1]], (Fin 2, Fin 4)), g)"
  by (simp_all add: ils_eval move_eval evaluate_P_sym m_of_P_sym)

text \<open>
  Claim C1.  On \<open>P_sym\<close> the greedy start gives operation 1 to team 1 and operation 2
  to team 2; the local search leaves it unchanged, so it is the first incumbent.  With a
  shuffle that reverses and a generator that returns 0, the first iteration perturbs the
  incumbent into the schedule with the two operations exchanged.  The trial of the
  iteration is the local search from \<open>start\<close>, the start schedule itself; the local
  search from the perturbed schedule returns the perturbed schedule, a different one.
  \<open>Swap::best\<close> is taken to be \<open>DirectSwap::best\<close>.
\<close>

theorem ILS_trial_searches_from_start:
  "Greedy_solve P_sym = Some (Inr ([[], [1], [2]], 2)) \<and>
   evaluate P_sym [[], [1], [2]] = (Fin 2, Fin 4) \<and>
   local_search False P_sym ([[], [1], [2]], (Fin 2, Fin 4)) (ILS_neighborhoods (best DirectSwap)) (\<lambda>_. 0)
     = Some (([[], [1], [2]], (Fin 2, Fin 4)), (\<lambda>_. 0)) \<and>
   ILS_trial P_sym False (ILS_neighborhoods (best DirectSwap)) shuffle_rev
       ([[], [1], [2]], (Fin 2, Fin 4))
       \<lparr> ils_incumbent = ([[], [1], [2]], (Fin 2, Fin 4)), ils_iteration = 0,
         ils_perturbation_passes = 1, ils_iteration_last_improvement = 0,
         ils_generator = (\<lambda>_. 0) \<rparr>
     = (([[], [2], [1]], (Fin 2, Fin 4)), Some (([[], [1], [2]], (Fin 2, Fin 4)), (\<lambda>_. 0))) \<and>
   local_search False P_sym ([[], [2], [1]], (Fin 2, Fin 4)) (ILS_neighborhoods (best DirectSwap)) (\<lambda>_. 0)
     = Some (([[], [2], [1]], (Fin 2, Fin 4)), (\<lambda>_. 0))"
  using Greedy_solve_P_sym evaluate_P_sym(1) perturbation_phase_P_sym local_search_P_sym
  by (simp add: ILS_trial_def)


section \<open>The perturbation keeps the operations\<close>

lemma erase_at_insert_at: "i \<le> length xs \<Longrightarrow> erase_at (insert_at xs i x) i = xs"
  by (simp add: erase_at_def insert_at_def min_def)

lemma insert_at_erase_at: "i < length xs \<Longrightarrow> insert_at (erase_at xs i) i (xs ! i) = xs"
  by (simp add: erase_at_def insert_at_def min_def id_take_nth_drop [symmetric])

lemma mset_take_drop: "mset (take i xs) + mset (drop i xs) = mset xs"
proof -
  have "mset (take i xs) + mset (drop i xs) = mset (take i xs @ drop i xs)"
    by (simp only: mset_append)
  then show ?thesis by (simp only: append_take_drop_id)
qed

lemma mset_insert_at: "mset (insert_at xs i x) = add_mset x (mset xs)"
  by (simp add: insert_at_def mset_take_drop)

lemma mset_erase_at: "i < length xs \<Longrightarrow> add_mset (xs ! i) (mset (erase_at xs i)) = mset xs"
proof -
  assume "i < length xs"
  then have "xs = take i xs @ xs ! i # drop (Suc i) xs" by (rule id_take_nth_drop)
  then have "mset xs = mset (take i xs @ xs ! i # drop (Suc i) xs)" by simp
  then show ?thesis by (simp add: erase_at_def)
qed

lemma length_erase_at: "i < length xs \<Longrightarrow> length (erase_at xs i) = length xs - 1"
  by (simp add: erase_at_def)

lemma mset_concat_update:
  "l < length sch \<Longrightarrow> mset (concat (sch[l := ys])) + mset (sch ! l) = mset (concat sch) + mset ys"
proof (induction sch arbitrary: l)
  case Nil
  then show ?case by simp
next
  case (Cons xs sch)
  show ?case
  proof (cases l)
    case 0
    then show ?thesis by simp
  next
    case (Suc k)
    with Cons.prems have "k < length sch" by simp
    from Cons.IH [OF this] Suc show ?thesis by simp
  qed
qed

text \<open>The schedule after \<open>schedule[l_target].insert(begin() + idx_target, operation)\<close>.\<close>

definition insertion :: "Schedule \<Rightarrow> nat \<Rightarrow> nat \<Rightarrow> nat \<Rightarrow> Schedule" where
  "insertion sch l_target idx_target operation =
     sch[l_target := insert_at (sch ! l_target) idx_target operation]"

lemma insertion_undo:
  "l < length sch \<Longrightarrow> i \<le> length (sch ! l) \<Longrightarrow>
   (insertion sch l i x)[l := erase_at (insertion sch l i x ! l) i] = sch"
  by (simp add: insertion_def erase_at_insert_at)

lemma mset_insertion:
  "l < length sch \<Longrightarrow> mset (concat (insertion sch l i x)) = add_mset x (mset (concat sch))"
  using mset_concat_update [of l sch "insert_at (sch ! l) i x"]
  by (simp add: insertion_def mset_insert_at)

lemma try_insertions_result:
  assumes "l < length sch" and "list_all (\<lambda>i. i \<le> length (sch ! l)) indexes"
  shows "(try_insertions P l x indexes (sch, ev) = (False, sch, ev) \<and>
          list_all (\<lambda>i. fst (evaluate P (insertion sch l i x)) = PInf) indexes) \<or>
         (\<exists>pre i post. indexes = pre @ i # post \<and>
            list_all (\<lambda>i. fst (evaluate P (insertion sch l i x)) = PInf) pre \<and>
            fst (evaluate P (insertion sch l i x)) \<noteq> PInf \<and>
            try_insertions P l x indexes (sch, ev)
              = (True, insertion sch l i x, evaluate P (insertion sch l i x)))"
  using assms(2)
proof (induction indexes)
  case Nil
  then show ?case by simp
next
  case (Cons i indexes)
  show ?case
  proof (cases "fst (evaluate P (insertion sch l i x)) = PInf")
    case False
    then have "try_insertions P l x (i # indexes) (sch, ev)
        = (True, insertion sch l i x, evaluate P (insertion sch l i x))"
      by (simp add: insertion_def Let_def)
    with False have "i # indexes = [] @ i # indexes \<and>
        list_all (\<lambda>i. fst (evaluate P (insertion sch l i x)) = PInf) [] \<and>
        fst (evaluate P (insertion sch l i x)) \<noteq> PInf \<and>
        try_insertions P l x (i # indexes) (sch, ev)
          = (True, insertion sch l i x, evaluate P (insertion sch l i x))" by simp
    then show ?thesis by blast
  next
    case True
    from Cons.prems have il: "i \<le> length (sch ! l)" and rest: "list_all (\<lambda>i. i \<le> length (sch ! l)) indexes"
      by simp_all
    have step: "try_insertions P l x (i # indexes) (sch, ev) = try_insertions P l x indexes (sch, ev)"
      using True insertion_undo [OF assms(1) il, of x] by (simp add: insertion_def Let_def)
    from Cons.IH [OF rest] show ?thesis
    proof
      assume "try_insertions P l x indexes (sch, ev) = (False, sch, ev) \<and>
          list_all (\<lambda>i. fst (evaluate P (insertion sch l i x)) = PInf) indexes"
      with step True show ?thesis by simp
    next
      assume "\<exists>pre i post. indexes = pre @ i # post \<and>
            list_all (\<lambda>i. fst (evaluate P (insertion sch l i x)) = PInf) pre \<and>
            fst (evaluate P (insertion sch l i x)) \<noteq> PInf \<and>
            try_insertions P l x indexes (sch, ev)
              = (True, insertion sch l i x, evaluate P (insertion sch l i x))"
      then obtain pre k post where h: "indexes = pre @ k # post"
            "list_all (\<lambda>i. fst (evaluate P (insertion sch l i x)) = PInf) pre"
            "fst (evaluate P (insertion sch l k x)) \<noteq> PInf"
            "try_insertions P l x indexes (sch, ev)
              = (True, insertion sch l k x, evaluate P (insertion sch l k x))" by blast
      with step True have "i # indexes = (i # pre) @ k # post \<and>
            list_all (\<lambda>i. fst (evaluate P (insertion sch l i x)) = PInf) (i # pre) \<and>
            fst (evaluate P (insertion sch l k x)) \<noteq> PInf \<and>
            try_insertions P l x (i # indexes) (sch, ev)
              = (True, insertion sch l k x, evaluate P (insertion sch l k x))" by simp
      then show ?thesis by blast
    qed
  qed
qed

text \<open>What \<open>std::shuffle\<close> guarantees: the result is a permutation of the argument.\<close>

definition permuting :: "shuffle \<Rightarrow> bool" where
  "permuting sh = (\<forall>xs g. mset (fst (sh xs g)) = mset xs)"

lemma mset_concat_erase:
  assumes "l < length sch" and "i < length (sch ! l)"
  shows "add_mset (sch ! l ! i) (mset (concat (sch[l := erase_at (sch ! l) i]))) = mset (concat sch)"
proof -
  from mset_concat_update [OF assms(1), of "erase_at (sch ! l) i"]
  have "mset (concat (sch[l := erase_at (sch ! l) i])) + mset (sch ! l)
        = mset (concat sch) + mset (erase_at (sch ! l) i)" .
  moreover from mset_erase_at [OF assms(2)]
  have "mset (sch ! l) = add_mset (sch ! l ! i) (mset (erase_at (sch ! l) i))" by simp
  ultimately have "add_mset (sch ! l ! i) (mset (concat (sch[l := erase_at (sch ! l) i])))
        + mset (erase_at (sch ! l) i) = mset (concat sch) + mset (erase_at (sch ! l) i)"
    by simp
  then show ?thesis by (simp only: add_right_cancel)
qed

lemma restore_erased:
  assumes "l < length sch" and "i < length (sch ! l)"
  shows "(sch[l := erase_at (sch ! l) i])[l := insert_at (sch[l := erase_at (sch ! l) i] ! l) i (sch ! l ! i)] = sch"
  using assms by (simp add: insert_at_erase_at)

lemma shuffled_indexes_bound:
  assumes "mset ys = mset [0..<k + 1]"
  shows "list_all (\<lambda>i. i \<le> k) ys"
proof -
  from assms have "set ys = set [0..<k + 1]" by (rule mset_eq_setD)
  then show ?thesis by (auto simp: list_all_iff)
qed

lemma chain_step_result:
  fixes shuffle :: shuffle and chain :: "nat list" and idx :: nat and sch :: Schedule
    and g :: generator
  assumes perm: "permuting shuffle"
    and lo: "chain ! idx < length sch"
    and lt: "chain ! ((idx + 1) mod length chain) < length sch"
    and ne: "sch ! (chain ! idx) \<noteq> []"
  defines "l_origin \<equiv> chain ! idx"
    and "l_target \<equiv> chain ! ((idx + 1) mod length chain)"
    and "idx_origin \<equiv> fst (draw g) mod length (sch ! (chain ! idx))"
  defines "operation \<equiv> sch ! l_origin ! idx_origin"
    and "sch1 \<equiv> sch[l_origin := erase_at (sch ! l_origin) idx_origin]"
  defines "indexes \<equiv> fst (shuffle [0..<length (sch1 ! l_target) + 1] (snd (draw g)))"
  shows "(list_all (\<lambda>i. fst (evaluate P (insertion sch1 l_target i operation)) = PInf) indexes \<and>
          fst (chain_step P shuffle chain idx ((sch, ev), g)) = (sch, ev)) \<or>
         (\<exists>pre i post. indexes = pre @ i # post \<and>
            list_all (\<lambda>i. fst (evaluate P (insertion sch1 l_target i operation)) = PInf) pre \<and>
            fst (evaluate P (insertion sch1 l_target i operation)) \<noteq> PInf \<and>
            fst (chain_step P shuffle chain idx ((sch, ev), g))
              = (insertion sch1 l_target i operation, evaluate P (insertion sch1 l_target i operation)))"
proof -
  have io: "idx_origin < length (sch ! l_origin)"
    using ne by (simp add: idx_origin_def l_origin_def)
  have len1: "l_target < length sch1" using lt by (simp add: sch1_def l_target_def)
  have bound: "list_all (\<lambda>i. i \<le> length (sch1 ! l_target)) indexes"
    unfolding indexes_def using perm by (intro shuffled_indexes_bound) (simp add: permuting_def)
  define g' where "g' = snd (shuffle [0..<length (sch1 ! l_target) + 1] (snd (draw g)))"
  have unfold: "chain_step P shuffle chain idx ((sch, ev), g) =
      (case try_insertions P l_target operation indexes (sch1, ev) of
         (success, schedule2, evaluation2) \<Rightarrow>
           if \<not> success
           then ((schedule2[l_origin := insert_at (schedule2 ! l_origin) idx_origin operation],
                  evaluation2), g')
           else ((schedule2, evaluation2), g'))"
    using ne
    unfolding chain_step_def Let_def g'_def indexes_def sch1_def operation_def idx_origin_def
      l_target_def l_origin_def
    by (simp add: split_beta)
  from try_insertions_result [OF len1 bound, of P operation ev] show ?thesis
  proof
    assume a: "try_insertions P l_target operation indexes (sch1, ev) = (False, sch1, ev) \<and>
        list_all (\<lambda>i. fst (evaluate P (insertion sch1 l_target i operation)) = PInf) indexes"
    have "sch1[l_origin := insert_at (sch1 ! l_origin) idx_origin operation] = sch"
      unfolding sch1_def operation_def using lo io
      by (intro restore_erased) (simp_all add: l_origin_def)
    with a unfold show ?thesis by simp
  next
    assume "\<exists>pre i post. indexes = pre @ i # post \<and>
        list_all (\<lambda>i. fst (evaluate P (insertion sch1 l_target i operation)) = PInf) pre \<and>
        fst (evaluate P (insertion sch1 l_target i operation)) \<noteq> PInf \<and>
        try_insertions P l_target operation indexes (sch1, ev)
          = (True, insertion sch1 l_target i operation, evaluate P (insertion sch1 l_target i operation))"
    then obtain pre i post where h: "indexes = pre @ i # post"
        "list_all (\<lambda>i. fst (evaluate P (insertion sch1 l_target i operation)) = PInf) pre"
        "fst (evaluate P (insertion sch1 l_target i operation)) \<noteq> PInf"
        "try_insertions P l_target operation indexes (sch1, ev)
          = (True, insertion sch1 l_target i operation, evaluate P (insertion sch1 l_target i operation))"
      by blast
    from h(4) unfold have "fst (chain_step P shuffle chain idx ((sch, ev), g))
        = (insertion sch1 l_target i operation, evaluate P (insertion sch1 l_target i operation))"
      by simp
    with h(1,2,3) show ?thesis by blast
  qed
qed

lemma chain_step_preserves:
  assumes perm: "permuting shuffle"
    and lo: "chain ! idx < length sch"
    and lt: "chain ! ((idx + 1) mod length chain) < length sch"
  shows "length (fst (fst (chain_step P shuffle chain idx ((sch, ev), g)))) = length sch \<and>
         mset (concat (fst (fst (chain_step P shuffle chain idx ((sch, ev), g))))) = mset (concat sch)"
proof (cases "sch ! (chain ! idx) = []")
  case True
  then show ?thesis by (simp add: chain_step_def Let_def)
next
  case False
  let ?lo = "chain ! idx" and ?lt = "chain ! ((idx + 1) mod length chain)"
  let ?io = "fst (draw g) mod length (sch ! ?lo)"
  let ?sch1 = "sch[?lo := erase_at (sch ! ?lo) ?io]"
  have io: "?io < length (sch ! ?lo)" using False by simp
  have m1: "add_mset (sch ! ?lo ! ?io) (mset (concat ?sch1)) = mset (concat sch)"
    by (rule mset_concat_erase [OF lo io])
  have ins: "\<And>i. mset (concat (insertion ?sch1 ?lt i (sch ! ?lo ! ?io))) = mset (concat sch)"
    using mset_insertion [of ?lt ?sch1] lt m1 by simp
  have len: "\<And>i. length (insertion ?sch1 ?lt i (sch ! ?lo ! ?io)) = length sch"
    by (simp add: insertion_def)
  from chain_step_result [OF perm lo lt False, where P = P and ev = ev and g = g] ins len
  show ?thesis by (elim disjE exE conjE) simp_all
qed

lemma fold_chain_step_preserves:
  assumes perm: "permuting shuffle"
    and chain: "list_all (\<lambda>l. l < length sch) chain"
    and idxs: "list_all (\<lambda>i. i < length chain) is"
  shows "length (fst (fst (fold (chain_step P shuffle chain) is ((sch, ev), g)))) = length sch \<and>
         mset (concat (fst (fst (fold (chain_step P shuffle chain) is ((sch, ev), g))))) = mset (concat sch)"
  using chain idxs
proof (induction "is" arbitrary: sch ev g)
  case Nil
  then show ?case by simp
next
  case (Cons i "is")
  obtain sch' ev' g' where st: "chain_step P shuffle chain i ((sch, ev), g) = ((sch', ev'), g')"
    by (metis prod.exhaust)
  from Cons.prems have i: "i < length chain" and rest: "list_all (\<lambda>i. i < length chain) is"
    by simp_all
  have lo: "chain ! i < length sch" using Cons.prems(1) i by (simp add: list_all_length)
  have "0 < length chain" using i by (cases chain) simp_all
  then have "(i + 1) mod length chain < length chain" by simp
  then have lt: "chain ! ((i + 1) mod length chain) < length sch"
    using Cons.prems(1) by (simp add: list_all_length)
  from chain_step_preserves [OF perm lo lt, of P ev g] st
  have p: "length sch' = length sch" "mset (concat sch') = mset (concat sch)" by simp_all
  from Cons.prems(1) p(1) have "list_all (\<lambda>l. l < length sch') chain" by simp
  from Cons.IH [OF this rest, of ev' g'] st p show ?case by simp
qed

lemma perturb_preserves:
  assumes perm: "permuting shuffle"
    and len: "length (fst entry) = m_of P + 1"
  shows "length (fst (fst (perturb P shuffle entry g))) = m_of P + 1 \<and>
         mset (concat (fst (fst (perturb P shuffle entry g)))) = mset (concat (fst entry))"
proof -
  obtain chain g' where sh: "shuffle [1..<m_of P + 1] g = (chain, g')" by (metis prod.exhaust)
  from perm have "mset (fst (shuffle [1..<m_of P + 1] g)) = mset [1..<m_of P + 1]"
    unfolding permuting_def by blast
  with sh have "mset chain = mset [1..<m_of P + 1]" by (simp only: fst_conv)
  then have "set chain = set [1..<m_of P + 1]" by (rule mset_eq_setD)
  then have c: "list_all (\<lambda>l. l < length (fst entry)) chain"
    using len by (auto simp: list_all_iff)
  have i: "list_all (\<lambda>i. i < length chain) [0..<length chain]" by (simp add: list_all_iff)
  from fold_chain_step_preserves [OF perm c i, of P "snd entry" g'] sh len
  show ?thesis by (simp add: perturb_def)
qed

text \<open>
  The outcome of one step of the chain on a non-empty origin lane: either every
  insertion position, in the shuffled order, gives an infinite makespan and the entry is
  returned as it was (the operation is back at its position); or the result is the
  insertion at the first position of the shuffled order that gives a finite makespan,
  with its evaluation.
\<close>

definition ejection_outcome ::
  "Problem \<Rightarrow> shuffle \<Rightarrow> nat list \<Rightarrow> nat \<Rightarrow> Schedule \<Rightarrow> evaluation \<Rightarrow> generator \<Rightarrow> bool" where
  "ejection_outcome P shuffle chain idx sch ev g =
     (let l_origin = chain ! idx;
          l_target = chain ! ((idx + 1) mod length chain);
          idx_origin = fst (draw g) mod length (sch ! l_origin);
          operation = sch ! l_origin ! idx_origin;
          sch1 = sch[l_origin := erase_at (sch ! l_origin) idx_origin];
          indexes = fst (shuffle [0..<length (sch1 ! l_target) + 1] (snd (draw g)));
          result = fst (chain_step P shuffle chain idx ((sch, ev), g))
      in (list_all (\<lambda>i. fst (evaluate P (insertion sch1 l_target i operation)) = PInf) indexes \<and>
          result = (sch, ev)) \<or>
         (\<exists>pre i post. indexes = pre @ i # post \<and>
            list_all (\<lambda>i. fst (evaluate P (insertion sch1 l_target i operation)) = PInf) pre \<and>
            fst (evaluate P (insertion sch1 l_target i operation)) \<noteq> PInf \<and>
            result = (insertion sch1 l_target i operation,
                      evaluate P (insertion sch1 l_target i operation))))"

text \<open>
  Claim C8.  For a shuffle that permutes and an entry of \<open>m + 1\<close> lanes, the schedule
  returned by \<open>perturb\<close> has \<open>m + 1\<close> lanes and holds the same operations as the
  entry, with the same multiplicities (each exactly once when the entry has each once);
  and every step of the chain on lanes of the schedule, with a non-empty origin lane,
  has the outcome \<open>ejection_outcome\<close>.
\<close>

theorem perturb_keeps_operations:
  assumes "permuting shuffle" and "length (fst entry) = m_of P + 1"
  shows "length (fst (fst (perturb P shuffle entry g))) = m_of P + 1 \<and>
         mset (concat (fst (fst (perturb P shuffle entry g)))) = mset (concat (fst entry)) \<and>
         (distinct (concat (fst entry)) \<longrightarrow> distinct (concat (fst (fst (perturb P shuffle entry g))))) \<and>
         (chain ! idx < length sch \<and> chain ! ((idx + 1) mod length chain) < length sch \<and>
          sch ! (chain ! idx) \<noteq> [] \<longrightarrow> ejection_outcome P shuffle chain idx sch ev g')"
proof -
  from perturb_preserves [OF assms, of g]
  have a: "length (fst (fst (perturb P shuffle entry g))) = m_of P + 1"
    and b: "mset (concat (fst (fst (perturb P shuffle entry g)))) = mset (concat (fst entry))"
    by simp_all
  from b have c: "distinct (concat (fst entry)) \<longrightarrow> distinct (concat (fst (fst (perturb P shuffle entry g))))"
    by (metis mset_eq_imp_distinct_iff)
  have d: "chain ! idx < length sch \<and> chain ! ((idx + 1) mod length chain) < length sch \<and>
          sch ! (chain ! idx) \<noteq> [] \<longrightarrow> ejection_outcome P shuffle chain idx sch ev g'"
  proof
    assume h: "chain ! idx < length sch \<and> chain ! ((idx + 1) mod length chain) < length sch \<and>
          sch ! (chain ! idx) \<noteq> []"
    then have lo: "chain ! idx < length sch" and lt: "chain ! ((idx + 1) mod length chain) < length sch"
      and ne: "sch ! (chain ! idx) \<noteq> []" by simp_all
    from chain_step_result [OF assms(1) lo lt ne, where P = P and ev = ev and g = g']
    show "ejection_outcome P shuffle chain idx sch ev g'"
      unfolding ejection_outcome_def Let_def .
  qed
  from a b c d show ?thesis by blast
qed

lemma permuting_shuffle_rev: "permuting shuffle_rev"
  by (simp add: permuting_def shuffle_rev_def)

theorem perturb_keeps_operations_witness:
  "permuting shuffle_rev \<and>
   length (fst ([[], [1], [2 :: nat]], (Fin 2, Fin 4 :: dbl))) = m_of P_sym + 1 \<and>
   distinct (concat (fst ([[], [1], [2 :: nat]], (Fin 2, Fin 4 :: dbl)))) \<and>
   [2, 1] ! 0 < length [[], [1], [2 :: nat]] \<and> [2, 1] ! ((0 + 1) mod length [2, 1 :: nat]) < length [[], [1], [2 :: nat]] \<and>
   [[], [1], [2]] ! ([2, 1] ! 0) \<noteq> ([] :: nat list) \<and>
   length (fst (fst (perturb P_sym shuffle_rev ([[], [1], [2]], (Fin 2, Fin 4)) (\<lambda>_. 0)))) = 3 \<and>
   mset (concat (fst (fst (perturb P_sym shuffle_rev ([[], [1], [2]], (Fin 2, Fin 4)) (\<lambda>_. 0))))) = {#1, 2#} \<and>
   distinct (concat (fst (fst (perturb P_sym shuffle_rev ([[], [1], [2]], (Fin 2, Fin 4)) (\<lambda>_. 0))))) \<and>
   ejection_outcome P_sym shuffle_rev [2, 1] 0 [[], [1], [2]] (Fin 2, Fin 4) (\<lambda>_. 0)"
proof -
  have a: "length (fst ([[], [1], [2 :: nat]], (Fin 2, Fin 4 :: dbl))) = m_of P_sym + 1"
    by (simp add: m_of_P_sym)
  have b: "[2, 1] ! 0 < length [[], [1], [2 :: nat]] \<and>
      [2, 1] ! ((0 + 1) mod length [2, 1 :: nat]) < length [[], [1], [2 :: nat]] \<and>
      [[], [1], [2]] ! ([2, 1] ! 0) \<noteq> ([] :: nat list)" by simp
  from perturb_keeps_operations [OF permuting_shuffle_rev a, of "\<lambda>_. 0" "[2, 1]" 0 "[[], [1], [2]]"
      "(Fin 2, Fin 4)" "\<lambda>_. 0"] b permuting_shuffle_rev a
  show ?thesis by (simp add: m_of_P_sym)
qed

section \<open>Invariants of the forward simulator\<close>

text \<open>
  The order \<open>\<le>\<close> on doubles (\<open>a <= b\<close> is \<open>!(b < a)\<close> without NaN).
\<close>

definition dle :: "dbl \<Rightarrow> dbl \<Rightarrow> bool" where
  "dle a b = (\<not> dless b a)"

lemma dle_simps [simp]:
  "dle (Fin a) (Fin b) = (a \<le> b)"
  "dle x PInf = True"
  "dle PInf (Fin b) = False"
  by (cases x; simp add: dle_def not_less)+

lemma dle_refl [simp]: "dle a a"
  by (cases a) simp_all

lemma dle_trans: "dle a b \<Longrightarrow> dle b c \<Longrightarrow> dle a c"
  by (cases a; cases b; cases c) simp_all

lemma dmax_Fin [simp]: "dmax (Fin a) (Fin b) = Fin (max a b)"
  by (simp add: dmax_def max_def)

lemma dmax_upper: "dle a (dmax a b)" "dle b (dmax a b)"
  by (cases a; cases b; simp add: dmax_def)+

lemma dadd_Fin_right: "dadd x (Fin b) = (case x of Fin a \<Rightarrow> Fin (a + b) | PInf \<Rightarrow> PInf)"
  by (cases x) simp_all

lemma nth_nth_in_concat:
  "l < length sch \<Longrightarrow> a < length (sch ! l) \<Longrightarrow> sch ! l ! a \<in> set (concat sch)"
proof -
  assume "l < length sch" and "a < length (sch ! l)"
  then have "sch ! l \<in> set sch" and "sch ! l ! a \<in> set (sch ! l)" by simp_all
  then show ?thesis by auto
qed

lemma concat_position_inj:
  assumes "distinct (concat sch)" and "l < length sch" and "l' < length sch"
    and "a < length (sch ! l)" and "a' < length (sch ! l')" and "sch ! l ! a = sch ! l' ! a'"
  shows "l = l' \<and> a = a'"
  using assms
proof (induction sch arbitrary: l l')
  case Nil
  then show ?case by simp
next
  case (Cons xs sch)
  from Cons.prems(1) have d: "distinct xs" "distinct (concat sch)" "set xs \<inter> set (concat sch) = {}"
    by simp_all
  have cross: False
    if "b < length xs" "k < length sch" "b' < length (sch ! k)" "xs ! b = sch ! k ! b'" for b k b'
  proof -
    from that(1) have "xs ! b \<in> set xs" by simp
    moreover from that(2,3) have "sch ! k ! b' \<in> set (concat sch)" by (rule nth_nth_in_concat)
    ultimately show False using d(3) that(4) by auto
  qed
  show ?case
  proof (cases l)
    case 0
    note l0 = this
    show ?thesis
    proof (cases l')
      case 0
      with l0 Cons.prems d(1) show ?thesis by (simp add: nth_eq_iff_index_eq)
    next
      case (Suc k')
      with l0 Cons.prems cross [of a k' a'] show ?thesis by simp
    qed
  next
    case (Suc k)
    note lk = this
    show ?thesis
    proof (cases l')
      case 0
      with lk Cons.prems cross [of a' k a] show ?thesis by simp
    next
      case (Suc k')
      with lk Cons.prems Cons.IH [OF d(2), of k k'] show ?thesis by simp
    qed
  qed
qed

text \<open>The loop over the predecessors, when the operation is not its own predecessor.\<close>

definition wait_value :: "Problem \<Rightarrow> (nat \<Rightarrow> dbl) \<Rightarrow> nat list \<Rightarrow> dbl \<Rightarrow> dbl" where
  "wait_value P tv ks v = fold (\<lambda>k acc. dmax acc (dadd (tv k) (Fin (p_of P k)))) ks v"

lemma fold_wait_other:
  "k \<noteq> j \<Longrightarrow>
   fold (\<lambda>k tv'. tv'(j := dmax (tv' j) (dadd (tv' k) (Fin (p_of P k))))) ks tv k = tv k"
  by (induction ks arbitrary: tv) simp_all

lemma fold_wait_self:
  "j \<notin> set ks \<Longrightarrow>
   fold (\<lambda>k tv'. tv'(j := dmax (tv' j) (dadd (tv' k) (Fin (p_of P k))))) ks tv j
     = wait_value P tv ks (tv j)"
proof (induction ks arbitrary: tv)
  case Nil
  then show ?case by (simp add: wait_value_def)
next
  case (Cons k ks)
  let ?tv = "tv(j := dmax (tv j) (dadd (tv k) (Fin (p_of P k))))"
  from Cons.prems have kj: "k \<noteq> j" and nin: "j \<notin> set ks" by auto
  have "wait_value P ?tv ks (?tv j) = wait_value P tv ks (?tv j)"
    unfolding wait_value_def using nin by (intro fold_cong) auto
  with Cons.IH [OF nin, of ?tv] kj show ?case by (simp add: wait_value_def)
qed

lemma wait_predecessors_apply:
  "j \<notin> set (predecessors P j) \<Longrightarrow>
   wait_predecessors P j tv k = (if k = j then wait_value P tv (predecessors P j) (tv j) else tv k)"
  by (simp add: wait_predecessors_def fold_wait_other fold_wait_self)

lemma wait_value_bounds:
  assumes "v \<noteq> PInf" and "\<forall>k\<in>set ks. tv k \<noteq> PInf"
  shows "wait_value P tv ks v \<noteq> PInf \<and> dle v (wait_value P tv ks v) \<and>
         (\<forall>k\<in>set ks. dle (dadd (tv k) (Fin (p_of P k))) (wait_value P tv ks v))"
  using assms
proof (induction ks arbitrary: v)
  case Nil
  then show ?case by (simp add: wait_value_def)
next
  case (Cons k ks)
  let ?v = "dmax v (dadd (tv k) (Fin (p_of P k)))"
  from Cons.prems obtain a b where ab: "v = Fin a" "tv k = Fin b"
    by (cases v; cases "tv k") auto
  then have fin: "?v \<noteq> PInf" by simp
  from Cons.prems(2) have rest: "\<forall>k\<in>set ks. tv k \<noteq> PInf" by simp
  from Cons.IH [OF fin rest]
  have ih: "wait_value P tv ks ?v \<noteq> PInf" "dle ?v (wait_value P tv ks ?v)"
    "\<forall>k\<in>set ks. dle (dadd (tv k) (Fin (p_of P k))) (wait_value P tv ks ?v)" by simp_all
  have eq: "wait_value P tv (k # ks) v = wait_value P tv ks ?v" by (simp add: wait_value_def)
  have "dle v (wait_value P tv ks ?v)"
    using dle_trans [OF dmax_upper(1) ih(2)] .
  moreover have "dle (dadd (tv k) (Fin (p_of P k))) (wait_value P tv ks ?v)"
    using dle_trans [OF dmax_upper(2) ih(2)] .
  ultimately show ?case using ih eq by simp
qed

lemma update_pendings_apply:
  "distinct (successors P j) \<Longrightarrow>
   update_pendings P j pd k = pd k - (if k \<in> set (successors P j) then 1 else 0)"
proof -
  have "distinct ks \<Longrightarrow> fold (\<lambda>k pd'. pd'(k := pd' k - 1)) ks pd k
          = pd k - (if k \<in> set ks then 1 else 0)" for ks
    by (induction ks arbitrary: pd) auto
  then show "distinct (successors P j) \<Longrightarrow> ?thesis" by (simp add: update_pendings_def)
qed

text \<open>
  A well-formed schedule has \<open>m + 1\<close> lanes and holds operations \<open>1..n\<close>, none
  twice.  The operations \<open>released\<close> are those before the index of their lane.
  \<open>lane_prev\<close> is the location of the team before the position \<open>a\<close> of its lane:
  the depot 0 or the operation before.  \<open>travel_start\<close> is
  \<open>t[i] + p[i] + s[i][j][l]\<close>.  \<open>sim_inv\<close> is the invariant of the loop:
  the indexes are within the lanes; \<open>t[0] = 0\<close>; an operation has a finite start
  time exactly when it is released; \<open>pendings[j]\<close> counts the predecessors of \<open>j\<close>
  not released; \<open>location\<close> is the last operation released on the lane; a released
  operation has its predecessors released and starts after each has finished; on a
  lane of a team, a released operation starts after the team has arrived.
  \<open>fire\<close> is the state after lane \<open>l\<close> has released its next operation.
\<close>

definition wf_schedule :: "Problem \<Rightarrow> Schedule \<Rightarrow> bool" where
  "wf_schedule P sch =
     (length sch = m_of P + 1 \<and> distinct (concat sch) \<and>
      list_all (\<lambda>j. 1 \<le> j \<and> j \<le> n_of P) (concat sch))"

definition released :: "Schedule \<Rightarrow> (nat \<Rightarrow> nat) \<Rightarrow> nat set" where
  "released sch idx = {j. \<exists>l a. l < length sch \<and> a < idx l \<and> a < length (sch ! l) \<and> j = sch ! l ! a}"

definition lane_prev :: "Schedule \<Rightarrow> nat \<Rightarrow> nat \<Rightarrow> nat" where
  "lane_prev sch l a = (if a = 0 then 0 else sch ! l ! (a - 1))"

definition travel_start :: "Problem \<Rightarrow> (nat \<Rightarrow> dbl) \<Rightarrow> nat \<Rightarrow> nat \<Rightarrow> nat \<Rightarrow> dbl" where
  "travel_start P tv i j l = dadd (dadd (tv i) (Fin (p_of P i))) (Fin (s_of P i j l))"

definition sim_inv :: "Problem \<Rightarrow> Schedule \<Rightarrow> sim_state \<Rightarrow> bool" where
  "sim_inv P sch st =
     ((\<forall>l<length sch. sim_index st l \<le> length (sch ! l)) \<and>
      sim_t st 0 = Fin 0 \<and>
      (\<forall>j. j \<noteq> 0 \<longrightarrow> (sim_t st j \<noteq> PInf) = (j \<in> released sch (sim_index st))) \<and>
      (\<forall>j\<in>set (concat sch).
         sim_pendings st j = int (card (set (predecessors P j) - released sch (sim_index st)))) \<and>
      (\<forall>l<length sch. sim_location st l = lane_prev sch l (sim_index st l)) \<and>
      (\<forall>j\<in>released sch (sim_index st). \<forall>i\<in>set (predecessors P j).
         i \<in> released sch (sim_index st) \<and> dle (dadd (sim_t st i) (Fin (p_of P i))) (sim_t st j)) \<and>
      (\<forall>l<length sch. 0 < l \<longrightarrow> (\<forall>a<sim_index st l.
         dle (travel_start P (sim_t st) (lane_prev sch l a) (sch ! l ! a) l) (sim_t st (sch ! l ! a)))))"

definition fire :: "Problem \<Rightarrow> Schedule \<Rightarrow> nat \<Rightarrow> sim_state \<Rightarrow> sim_state" where
  "fire P sch l st =
     (let j = sch ! l ! sim_index st l;
          i = sim_location st l;
          tj = (if l \<noteq> 0 then travel_start P (sim_t st) i j l else Fin 0)
      in st\<lparr> sim_t := wait_predecessors P j ((sim_t st)(j := tj)),
             sim_pendings := update_pendings P j (sim_pendings st),
             sim_index := (sim_index st)(l := sim_index st l + 1),
             sim_location := (sim_location st)(l := j),
             sim_count := sim_count st + 1,
             sim_feasibility := True \<rparr>)"

lemma lane_step_cases:
  "lane_step P sch l st = st \<or>
   (sim_index st l < length (sch ! l) \<and> sim_pendings st (sch ! l ! sim_index st l) = 0 \<and>
    lane_step P sch l st = fire P sch l st)"
  by (simp add: lane_step_def fire_def travel_start_def Let_def)

lemma wf_problemD:
  assumes "wf_problem P" and "1 \<le> j" and "j \<le> n_of P"
  shows "distinct (predecessors P j)" and "distinct (successors P j)"
    and "i \<in> set (predecessors P j) \<Longrightarrow> 1 \<le> i \<and> i \<le> n_of P \<and> j \<in> set (successors P i)"
    and "k \<in> set (successors P j) \<Longrightarrow> 1 \<le> k \<and> k \<le> n_of P \<and> j \<in> set (predecessors P k)"
proof -
  from assms(2,3) have "j \<in> set [1..<n_of P + 1]" by auto
  with assms(1) have h: "distinct (predecessors P j) \<and> distinct (successors P j) \<and>
      list_all (\<lambda>i. 1 \<le> i \<and> i \<le> n_of P \<and> j \<in> set (successors P i)) (predecessors P j) \<and>
      list_all (\<lambda>k. 1 \<le> k \<and> k \<le> n_of P \<and> j \<in> set (predecessors P k)) (successors P j)"
    unfolding wf_problem_def list_all_iff by blast
  from h show "distinct (predecessors P j)" and "distinct (successors P j)" by simp_all
  from h show "i \<in> set (predecessors P j) \<Longrightarrow> 1 \<le> i \<and> i \<le> n_of P \<and> j \<in> set (successors P i)"
    unfolding list_all_iff by blast
  from h show "k \<in> set (successors P j) \<Longrightarrow> 1 \<le> k \<and> k \<le> n_of P \<and> j \<in> set (predecessors P k)"
    unfolding list_all_iff by blast
qed

lemma released_step:
  assumes "l < length sch" and "idx l < length (sch ! l)"
  shows "released sch (idx(l := idx l + 1)) = insert (sch ! l ! idx l) (released sch idx)"
proof (rule set_eqI)
  fix j
  show "j \<in> released sch (idx(l := idx l + 1)) \<longleftrightarrow> j \<in> insert (sch ! l ! idx l) (released sch idx)"
  proof
    assume "j \<in> released sch (idx(l := idx l + 1))"
    then obtain l' a where h: "l' < length sch" "a < (idx(l := idx l + 1)) l'" "a < length (sch ! l')"
      "j = sch ! l' ! a" by (auto simp: released_def)
    show "j \<in> insert (sch ! l ! idx l) (released sch idx)"
    proof (cases "l' = l \<and> a = idx l")
      case True
      with h(4) show ?thesis by simp
    next
      case False
      with h(2) have "a < idx l'" by (cases "l' = l") auto
      with h have "j \<in> released sch idx" by (auto simp: released_def)
      then show ?thesis by simp
    qed
  next
    assume "j \<in> insert (sch ! l ! idx l) (released sch idx)"
    then show "j \<in> released sch (idx(l := idx l + 1))"
    proof
      assume "j = sch ! l ! idx l"
      with assms have "l < length sch \<and> idx l < (idx(l := idx l + 1)) l \<and> idx l < length (sch ! l) \<and>
        j = sch ! l ! idx l" by simp
      then show ?thesis unfolding released_def by blast
    next
      assume "j \<in> released sch idx"
      then obtain l' a where h: "l' < length sch" "a < idx l'" "a < length (sch ! l')"
        "j = sch ! l' ! a" by (auto simp: released_def)
      then have "a < (idx(l := idx l + 1)) l'" by (cases "l' = l") auto
      with h show ?thesis unfolding released_def by blast
    qed
  qed
qed

lemma head_not_released:
  assumes "distinct (concat sch)" and "l < length sch" and "idx l < length (sch ! l)"
  shows "sch ! l ! idx l \<notin> released sch idx"
proof
  assume "sch ! l ! idx l \<in> released sch idx"
  then obtain l' a where h: "l' < length sch" "a < idx l'" "a < length (sch ! l')"
    "sch ! l ! idx l = sch ! l' ! a" by (auto simp: released_def)
  from concat_position_inj [OF assms(1) assms(2) h(1) assms(3) h(3) h(4)]
  have "l = l'" and "idx l = a" by auto
  with h(2) show False by auto
qed

lemma released_in_concat: "released sch idx \<subseteq> set (concat sch)"
proof
  fix j assume "j \<in> released sch idx"
  then obtain l a where "l < length sch" "a < length (sch ! l)" "j = sch ! l ! a"
    unfolding released_def by blast
  then show "j \<in> set (concat sch)" using nth_nth_in_concat [of l sch a] by simp
qed

lemma wf_schedule_range:
  "wf_schedule P sch \<Longrightarrow> j \<in> set (concat sch) \<Longrightarrow> 1 \<le> j \<and> j \<le> n_of P"
  unfolding wf_schedule_def list_all_iff by blast

lemma lane_prev_released:
  assumes "l < length sch" and "a \<le> idx l" and "idx l \<le> length (sch ! l)"
  shows "lane_prev sch l a = 0 \<or> lane_prev sch l a \<in> released sch idx"
proof (cases "a = 0")
  case True
  then show ?thesis by (simp add: lane_prev_def)
next
  case False
  with assms have "l < length sch \<and> a - 1 < idx l \<and> a - 1 < length (sch ! l) \<and>
      lane_prev sch l a = sch ! l ! (a - 1)" by (auto simp: lane_prev_def)
  then have "lane_prev sch l a \<in> released sch idx" unfolding released_def by blast
  then show ?thesis ..
qed

lemma travel_start_cong:
  "tv i = tv' i \<Longrightarrow> travel_start P tv i j l = travel_start P tv' i j l"
  by (simp add: travel_start_def)

lemma travel_start_finite: "tv i \<noteq> PInf \<Longrightarrow> travel_start P tv i j l \<noteq> PInf"
  by (cases "tv i") (simp_all add: travel_start_def)

lemma card_Diff_insert_int:
  assumes "finite A" and "j \<notin> R"
  shows "int (card (A - insert j R)) = int (card (A - R)) - (if j \<in> A then 1 else 0)"
proof (cases "j \<in> A")
  case False
  then have "A - insert j R = A - R" by auto
  with False show ?thesis by simp
next
  case True
  with assms(2) have in': "j \<in> A - R" by simp
  have "A - insert j R = (A - R) - {j}" by auto
  moreover from assms(1) have "finite (A - R)" by simp
  ultimately have "card (A - insert j R) = card (A - R) - 1"
    using in' by (simp add: card_Diff_singleton)
  moreover from in' \<open>finite (A - R)\<close> have "0 < card (A - R)" by (auto simp: card_gt_0_iff)
  ultimately show ?thesis using True by simp
qed

lemma fire_inv:
  assumes wfp: "wf_problem P" and wfs: "wf_schedule P sch" and inv: "sim_inv P sch st"
    and l: "l < length sch" and idx: "sim_index st l < length (sch ! l)"
    and pend: "sim_pendings st (sch ! l ! sim_index st l) = 0"
  shows "sim_inv P sch (fire P sch l st)"
proof -
  define j where "j = sch ! l ! sim_index st l"
  define R where "R = released sch (sim_index st)"
  define i where "i = sim_location st l"
  define tj where "tj = (if l \<noteq> 0 then travel_start P (sim_t st) i j l else Fin 0)"
  define tv where "tv = (sim_t st)(j := tj)"
  define t' where "t' = wait_predecessors P j tv"
  from inv have i1: "\<And>l. l < length sch \<Longrightarrow> sim_index st l \<le> length (sch ! l)"
    and i2: "sim_t st 0 = Fin 0"
    and i3: "\<And>k. k \<noteq> 0 \<Longrightarrow> (sim_t st k \<noteq> PInf) = (k \<in> R)"
    and i4: "\<And>k. k \<in> set (concat sch) \<Longrightarrow> sim_pendings st k = int (card (set (predecessors P k) - R))"
    and i5: "\<And>l. l < length sch \<Longrightarrow> sim_location st l = lane_prev sch l (sim_index st l)"
    and i6: "\<And>k h. k \<in> R \<Longrightarrow> h \<in> set (predecessors P k) \<Longrightarrow>
               h \<in> R \<and> dle (dadd (sim_t st h) (Fin (p_of P h))) (sim_t st k)"
    and i7: "\<And>l a. l < length sch \<Longrightarrow> 0 < l \<Longrightarrow> a < sim_index st l \<Longrightarrow>
               dle (travel_start P (sim_t st) (lane_prev sch l a) (sch ! l ! a) l) (sim_t st (sch ! l ! a))"
    unfolding sim_inv_def R_def by blast+
  from wfs have dist: "distinct (concat sch)" by (simp add: wf_schedule_def)
  have jc: "j \<in> set (concat sch)" unfolding j_def using l idx by (rule nth_nth_in_concat)
  from wf_schedule_range [OF wfs jc] have jr: "1 \<le> j" "j \<le> n_of P" by simp_all
  then have j0: "j \<noteq> 0" by simp
  have jn: "j \<notin> R" unfolding j_def R_def using dist l idx by (rule head_not_released)
  have Rpos: "\<And>k. k \<in> R \<Longrightarrow> k \<noteq> 0 \<and> k \<noteq> j"
  proof -
    fix k assume kR: "k \<in> R"
    then have "k \<in> set (concat sch)" using released_in_concat R_def by blast
    from wf_schedule_range [OF wfs this] kR jn show "k \<noteq> 0 \<and> k \<noteq> j" by auto
  qed
  have preds: "set (predecessors P j) \<subseteq> R"
  proof -
    from i4 [OF jc] pend have "card (set (predecessors P j) - R) = 0" by (simp add: j_def)
    then have "set (predecessors P j) - R = {}" by simp
    then show ?thesis by blast
  qed
  with jn have jnp: "j \<notin> set (predecessors P j)" by blast
  have t'_other: "\<And>k. k \<noteq> j \<Longrightarrow> t' k = sim_t st k"
    unfolding t'_def tv_def using jnp by (simp add: wait_predecessors_apply)
  have t'_j: "t' j = wait_value P tv (predecessors P j) tj"
    unfolding t'_def using jnp by (simp add: wait_predecessors_apply tv_def)
  have i_prev: "i = lane_prev sch l (sim_index st l)" unfolding i_def using l by (rule i5)
  have "lane_prev sch l (sim_index st l) = 0 \<or>
      lane_prev sch l (sim_index st l) \<in> released sch (sim_index st)"
    using l i1 [OF l] by (intro lane_prev_released) simp_all
  with i_prev have i_cases: "i = 0 \<or> i \<in> R" by (simp add: R_def)
  then have i_ne: "i \<noteq> j" using j0 Rpos by blast
  have i_fin: "sim_t st i \<noteq> PInf"
    using i_cases
  proof
    assume "i = 0" with i2 show ?thesis by simp
  next
    assume "i \<in> R" with Rpos [OF this] i3 [of i] show ?thesis by simp
  qed
  have tj_fin: "tj \<noteq> PInf" unfolding tj_def using i_fin by (simp add: travel_start_finite)
  have tv_preds: "\<forall>k\<in>set (predecessors P j). tv k \<noteq> PInf"
  proof
    fix k assume "k \<in> set (predecessors P j)"
    with preds have kR: "k \<in> R" by blast
    from Rpos [OF kR] i3 [of k] kR show "tv k \<noteq> PInf" by (simp add: tv_def)
  qed
  from wait_value_bounds [OF tj_fin tv_preds, of P] t'_j
  have tj'_fin: "t' j \<noteq> PInf" and tj'_ge: "dle tj (t' j)"
    and tj'_preds: "\<And>k. k \<in> set (predecessors P j) \<Longrightarrow> dle (dadd (tv k) (Fin (p_of P k))) (t' j)"
    by simp_all
  have sel: "sim_t (fire P sch l st) = t'"
    "sim_pendings (fire P sch l st) = update_pendings P j (sim_pendings st)"
    "sim_index (fire P sch l st) = (sim_index st)(l := sim_index st l + 1)"
    "sim_location (fire P sch l st) = (sim_location st)(l := j)"
    by (simp_all add: fire_def Let_def t'_def tv_def tj_def i_def j_def)
  have R': "released sch ((sim_index st)(l := sim_index st l + 1)) = insert j R"
    unfolding R_def j_def using l idx by (rule released_step)
  have c1: "\<forall>l'<length sch. ((sim_index st)(l := sim_index st l + 1)) l' \<le> length (sch ! l')"
    using i1 idx by auto
  have c2: "t' 0 = Fin 0" using t'_other [of 0] j0 i2 by simp
  have c3: "\<forall>k. k \<noteq> 0 \<longrightarrow> (t' k \<noteq> PInf) = (k \<in> insert j R)"
  proof (intro allI impI)
    fix k :: nat assume k0: "k \<noteq> 0"
    show "(t' k \<noteq> PInf) = (k \<in> insert j R)"
    proof (cases "k = j")
      case True
      with tj'_fin show ?thesis by simp
    next
      case False
      with t'_other [OF False] i3 [OF k0] show ?thesis by simp
    qed
  qed
  have c4: "\<forall>k\<in>set (concat sch).
      update_pendings P j (sim_pendings st) k = int (card (set (predecessors P k) - insert j R))"
  proof
    fix k assume kc: "k \<in> set (concat sch)"
    from wf_schedule_range [OF wfs kc] have kr: "1 \<le> k" "k \<le> n_of P" by simp_all
    have iff: "k \<in> set (successors P j) \<longleftrightarrow> j \<in> set (predecessors P k)"
      using wf_problemD(4) [OF wfp jr, of k] wf_problemD(3) [OF wfp kr, of j] by blast
    have "update_pendings P j (sim_pendings st) k
        = sim_pendings st k - (if k \<in> set (successors P j) then 1 else 0)"
      using wf_problemD(2) [OF wfp jr] by (rule update_pendings_apply)
    also have "\<dots> = int (card (set (predecessors P k) - R)) - (if j \<in> set (predecessors P k) then 1 else 0)"
      using i4 [OF kc] iff by simp
    also have "\<dots> = int (card (set (predecessors P k) - insert j R))"
      using card_Diff_insert_int [of "set (predecessors P k)" j R] jn by simp
    finally show "update_pendings P j (sim_pendings st) k
        = int (card (set (predecessors P k) - insert j R))" .
  qed
  have c5: "\<forall>l'<length sch. ((sim_location st)(l := j)) l'
      = lane_prev sch l' (((sim_index st)(l := sim_index st l + 1)) l')"
    using i5 by (auto simp: lane_prev_def j_def)
  have c6: "\<forall>k\<in>insert j R. \<forall>h\<in>set (predecessors P k).
      h \<in> insert j R \<and> dle (dadd (t' h) (Fin (p_of P h))) (t' k)"
  proof (intro ballI)
    fix k h assume k: "k \<in> insert j R" and h: "h \<in> set (predecessors P k)"
    show "h \<in> insert j R \<and> dle (dadd (t' h) (Fin (p_of P h))) (t' k)"
    proof (cases "k = j")
      case True
      with h preds have hR: "h \<in> R" by blast
      from Rpos [OF hR] have "t' h = tv h" using t'_other [of h] by (simp add: tv_def)
      with tj'_preds [of h] h True hR show ?thesis by simp
    next
      case False
      with k have kR: "k \<in> R" by simp
      from i6 [OF kR h] have hR: "h \<in> R"
        and le: "dle (dadd (sim_t st h) (Fin (p_of P h))) (sim_t st k)" by simp_all
      from Rpos [OF hR] Rpos [OF kR] t'_other [of h] t'_other [of k] le hR
      show ?thesis by simp
    qed
  qed
  have c7: "\<forall>l'<length sch. 0 < l' \<longrightarrow> (\<forall>a<((sim_index st)(l := sim_index st l + 1)) l'.
      dle (travel_start P t' (lane_prev sch l' a) (sch ! l' ! a) l') (t' (sch ! l' ! a)))"
  proof (intro allI impI)
    fix l' a assume l': "l' < length sch" and pos: "0 < l'"
      and a: "a < ((sim_index st)(l := sim_index st l + 1)) l'"
    show "dle (travel_start P t' (lane_prev sch l' a) (sch ! l' ! a) l') (t' (sch ! l' ! a))"
    proof (cases "l' = l \<and> a = sim_index st l")
      case True
      then have e: "sch ! l' ! a = j" "lane_prev sch l' a = i" by (simp_all add: j_def i_prev)
      have "travel_start P t' i j l = travel_start P (sim_t st) i j l"
        using t'_other [OF i_ne] by (rule travel_start_cong)
      also have "\<dots> = tj" using pos True by (simp add: tj_def)
      finally show ?thesis using tj'_ge e True by simp
    next
      case False
      with a have a': "a < sim_index st l'" by (cases "l' = l") auto
      with i1 [OF l'] have al: "a < length (sch ! l')" by simp
      from l' a' al have eR: "sch ! l' ! a \<in> R" unfolding R_def released_def by blast
      have "lane_prev sch l' a = 0 \<or> lane_prev sch l' a \<in> released sch (sim_index st)"
        using l' a' i1 [OF l'] by (intro lane_prev_released) simp_all
      then have "lane_prev sch l' a = 0 \<or> lane_prev sch l' a \<in> R" by (simp add: R_def)
      then have pne: "lane_prev sch l' a \<noteq> j" using j0 Rpos by auto
      have "travel_start P t' (lane_prev sch l' a) (sch ! l' ! a) l'
          = travel_start P (sim_t st) (lane_prev sch l' a) (sch ! l' ! a) l'"
        using t'_other [OF pne] by (rule travel_start_cong)
      moreover have "t' (sch ! l' ! a) = sim_t st (sch ! l' ! a)"
        using Rpos [OF eR] t'_other by simp
      ultimately show ?thesis using i7 [OF l' pos a'] by simp
    qed
  qed
  show ?thesis
    unfolding sim_inv_def sel R' using c1 c2 c3 c4 c5 c6 c7 by blast
qed

lemma sim_inv_feasibility [simp]:
  "sim_inv P sch (st\<lparr> sim_feasibility := b \<rparr>) = sim_inv P sch st"
  by (simp add: sim_inv_def)

lemma lane_step_inv:
  assumes "wf_problem P" and "wf_schedule P sch" and "sim_inv P sch st" and "l < length sch"
  shows "sim_inv P sch (lane_step P sch l st)"
  using lane_step_cases [of P sch l st] assms fire_inv [of P sch st l] by auto

lemma fold_lane_step_inv:
  assumes "wf_problem P" and "wf_schedule P sch"
  shows "sim_inv P sch st \<Longrightarrow> list_all (\<lambda>l. l < length sch) ls \<Longrightarrow>
         sim_inv P sch (fold (lane_step P sch) ls st)"
proof (induction ls arbitrary: st)
  case Nil
  then show ?case by simp
next
  case (Cons l ls)
  from Cons.prems have "l < length sch" and rest: "list_all (\<lambda>l. l < length sch) ls" by simp_all
  from lane_step_inv [OF assms Cons.prems(1) this(1)] Cons.IH rest show ?case by simp
qed

lemma sim_round_inv:
  assumes "wf_problem P" and "wf_schedule P sch" and "sim_inv P sch st"
  shows "sim_inv P sch (sim_round P sch st)"
proof -
  from assms(2) have "list_all (\<lambda>l. l < length sch) [0..<m_of P + 1]"
    by (simp add: wf_schedule_def list_all_iff)
  with fold_lane_step_inv [OF assms(1,2), of "st\<lparr> sim_feasibility := False \<rparr>" "[0..<m_of P + 1]"] assms(3)
  show ?thesis by (simp add: sim_round_def)
qed

lemma sim_loop_inv:
  "wf_problem P \<Longrightarrow> wf_schedule P sch \<Longrightarrow> sim_inv P sch st \<Longrightarrow>
   sim_inv P sch (sim_loop P sch st)"
proof (induction P sch st rule: sim_loop.induct)
  case (1 P sch st)
  show ?case
  proof (cases "sim_count st < n_of P \<and> sim_feasibility st")
    case True
    from sim_round_inv [OF "1.prems"] have "sim_inv P sch (sim_round P sch st)" .
    from "1.IH" [OF True "1.prems"(1,2) this]
    have "sim_inv P sch (sim_loop P sch (sim_round P sch st))" .
    moreover have "sim_loop P sch st = sim_loop P sch (sim_round P sch st)"
      by (subst sim_loop.simps) (rule if_P [OF True])
    ultimately show ?thesis by simp
  next
    case False
    have "sim_loop P sch st = st"
      by (subst sim_loop.simps) (rule if_not_P [OF False])
    with "1.prems"(3) show ?thesis by simp
  qed
qed

lemma fold_assign_apply:
  "fold (\<lambda>j pd'. pd'(j := f j)) xs pd k = (if k \<in> set xs then f k else pd k)"
  by (induction xs arbitrary: pd) auto

lemma fold_lanes_assign_apply:
  "fold (\<lambda>l pd. fold (\<lambda>j pd'. pd'(j := f j)) (sch ! l) pd) ls pd k
     = (if \<exists>l\<in>set ls. k \<in> set (sch ! l) then f k else pd k)"
proof (induction ls arbitrary: pd)
  case Nil
  then show ?case by simp
next
  case (Cons l ls)
  let ?pd = "fold (\<lambda>j pd'. pd'(j := f j)) (sch ! l) pd"
  have "fold (\<lambda>l pd. fold (\<lambda>j pd'. pd'(j := f j)) (sch ! l) pd) (l # ls) pd k
      = fold (\<lambda>l pd. fold (\<lambda>j pd'. pd'(j := f j)) (sch ! l) pd) ls ?pd k" by simp
  also have "\<dots> = (if \<exists>l\<in>set ls. k \<in> set (sch ! l) then f k else ?pd k)"
    by (rule Cons.IH)
  also have "?pd k = (if k \<in> set (sch ! l) then f k else pd k)"
    by (rule fold_assign_apply)
  finally show ?case by auto
qed

lemma in_concat_iff_nth:
  "k \<in> set (concat sch) \<longleftrightarrow> (\<exists>l\<in>set [0..<length sch]. k \<in> set (sch ! l))"
proof
  assume "k \<in> set (concat sch)"
  then obtain xs where "xs \<in> set sch" "k \<in> set xs" by auto
  then obtain l where "l < length sch" "xs = sch ! l" by (auto simp: in_set_conv_nth)
  with \<open>k \<in> set xs\<close> show "\<exists>l\<in>set [0..<length sch]. k \<in> set (sch ! l)" by auto
next
  assume "\<exists>l\<in>set [0..<length sch]. k \<in> set (sch ! l)"
  then obtain l where "l < length sch" "k \<in> set (sch ! l)" by auto
  then have "sch ! l \<in> set sch" by simp
  with \<open>k \<in> set (sch ! l)\<close> show "k \<in> set (concat sch)" by auto
qed

lemma init_pendings_apply:
  assumes "length sch = m_of P + 1"
  shows "init_pendings P sch k
         = (if k \<in> set (concat sch) then int (length (predecessors P k)) else 0)"
  unfolding init_pendings_def fold_lanes_assign_apply in_concat_iff_nth assms ..

lemma released_init [simp]: "released sch (\<lambda>_. 0) = {}"
  by (simp add: released_def)

lemma init_inv:
  assumes wfp: "wf_problem P" and wfs: "wf_schedule P sch"
  shows "sim_inv P sch (init_state P sch)"
proof -
  from wfs have len: "length sch = m_of P + 1" by (simp add: wf_schedule_def)
  have "\<forall>j\<in>set (concat sch). init_pendings P sch j = int (card (set (predecessors P j)))"
  proof
    fix j assume jc: "j \<in> set (concat sch)"
    from wf_schedule_range [OF wfs jc] have "1 \<le> j" "j \<le> n_of P" by simp_all
    from wf_problemD(1) [OF wfp this] have "card (set (predecessors P j)) = length (predecessors P j)"
      by (rule distinct_card)
    with jc show "init_pendings P sch j = int (card (set (predecessors P j)))"
      by (simp add: init_pendings_apply [OF len])
  qed
  then show ?thesis by (simp add: sim_inv_def init_state_def lane_prev_def)
qed

definition final_state :: "Problem \<Rightarrow> Schedule \<Rightarrow> sim_state" where
  "final_state P sch = sim_loop P sch (init_state P sch)"

lemma final_inv:
  "wf_problem P \<Longrightarrow> wf_schedule P sch \<Longrightarrow> sim_inv P sch (final_state P sch)"
  unfolding final_state_def by (intro sim_loop_inv init_inv) assumption+

lemma start_time_final: "start_time P sch = sim_t (final_state P sch)"
  by (simp add: start_time_def final_state_def)

text \<open>What the simulator guarantees on a well-formed schedule.\<close>

lemma start_time_zero:
  "wf_problem P \<Longrightarrow> wf_schedule P sch \<Longrightarrow> start_time P sch 0 = Fin 0"
  using final_inv [of P sch] by (simp add: sim_inv_def start_time_final)

lemma start_time_precedence:
  assumes "wf_problem P" and "wf_schedule P sch" and "j \<noteq> 0" and "i \<in> set (predecessors P j)"
  shows "dle (dadd (start_time P sch i) (Fin (p_of P i))) (start_time P sch j)"
proof (cases "start_time P sch j = PInf")
  case True
  then show ?thesis by simp
next
  case False
  from final_inv [OF assms(1,2)] have inv: "sim_inv P sch (final_state P sch)" .
  from inv assms(3) False have "j \<in> released sch (sim_index (final_state P sch))"
    unfolding sim_inv_def start_time_final by blast
  with inv assms(4) show ?thesis unfolding sim_inv_def start_time_final by blast
qed

lemma fold_lanes_concat:
  "fold (\<lambda>l acc. fold f (sch ! l) acc) ls acc = fold f (concat (map ((!) sch) ls)) acc"
  by (induction ls arbitrary: acc) simp_all

definition count_step :: "Problem \<Rightarrow> nat \<Rightarrow> (nat \<Rightarrow> nat) option \<Rightarrow> (nat \<Rightarrow> nat) option" where
  "count_step P i acc =
     (case acc of None \<Rightarrow> None
      | Some a \<Rightarrow> if i < 1 \<or> n_of P < i then None else Some (a(i := a i + 1)))"

lemma count_assignment_concat:
  assumes "length sch = m_of P + 1"
  shows "count_assignment P sch = fold (count_step P) (concat sch) (Some (\<lambda>_. 0))"
proof -
  have "count_assignment P sch
      = fold (\<lambda>l acc. fold (count_step P) (sch ! l) acc) [0..<m_of P + 1] (Some (\<lambda>_. 0))"
    unfolding count_assignment_def count_step_def ..
  also have "\<dots> = fold (count_step P) (concat (map ((!) sch) [0..<length sch])) (Some (\<lambda>_. 0))"
    unfolding fold_lanes_concat assms ..
  finally show ?thesis by (simp only: map_nth)
qed

lemma fold_count_step_None: "fold (count_step P) xs None = None"
  by (induction xs) (simp_all add: count_step_def)

lemma fold_count_step_Some:
  "fold (count_step P) xs (Some a) = Some b \<Longrightarrow>
   list_all (\<lambda>i. 1 \<le> i \<and> i \<le> n_of P) xs \<and> (\<forall>i. b i = a i + count_list xs i)"
proof (induction xs arbitrary: a)
  case Nil
  then show ?case by simp
next
  case (Cons x xs)
  show ?case
  proof (cases "x < 1 \<or> n_of P < x")
    case True
    then have "count_step P x (Some a) = None" by (simp add: count_step_def)
    then have "fold (count_step P) (x # xs) (Some a) = fold (count_step P) xs None"
      by (simp only: fold_simps o_apply)
    then have "fold (count_step P) (x # xs) (Some a) = None"
      by (simp only: fold_count_step_None)
    with Cons.prems show ?thesis by simp
  next
    case False
    then have "count_step P x (Some a) = Some (a(x := a x + 1))" by (simp add: count_step_def)
    then have "fold (count_step P) (x # xs) (Some a) = fold (count_step P) xs (Some (a(x := a x + 1)))"
      by (simp only: fold_simps o_apply)
    with Cons.prems have "fold (count_step P) xs (Some (a(x := a x + 1))) = Some b" by simp
    from Cons.IH [OF this] False show ?thesis by auto
  qed
qed

lemma is_feasibleD:
  assumes "is_feasible P sch"
  shows "wf_schedule P sch"
    and "\<And>i. 1 \<le> i \<Longrightarrow> i \<le> n_of P \<Longrightarrow> i \<in> set (concat sch)"
    and "list_all (\<lambda>i. technology P i = REMOTE) (sch ! 0)"
    and "list_all (\<lambda>l. list_all (\<lambda>i. technology P i = MANUAL) (sch ! l)) [1..<m_of P + 1]"
    and "precedence_check P (start_time P sch)"
proof -
  from assms have len: "length sch = m_of P + 1"
    by (simp add: is_feasible_def split: if_splits)
  with assms obtain assignment where ca: "count_assignment P sch = Some assignment"
    and ones: "list_all (\<lambda>i. assignment i = 1) [1..<n_of P + 1]"
    and rest: "list_all (\<lambda>i. technology P i = REMOTE) (sch ! 0)"
      "list_all (\<lambda>l. list_all (\<lambda>i. technology P i = MANUAL) (sch ! l)) [1..<m_of P + 1]"
      "precedence_check P (start_time P sch)"
    by (auto simp: is_feasible_def split: if_splits option.splits)
  from ca have "fold (count_step P) (concat sch) (Some (\<lambda>_. 0)) = Some assignment"
    by (simp add: count_assignment_concat [OF len])
  from fold_count_step_Some [OF this]
  have range: "list_all (\<lambda>i. 1 \<le> i \<and> i \<le> n_of P) (concat sch)"
    and cnt: "\<And>i. assignment i = count_list (concat sch) i" by simp_all
  have one: "count_list (concat sch) i = 1" if "1 \<le> i" "i \<le> n_of P" for i
  proof -
    from ones have "\<forall>i\<in>set [1..<n_of P + 1]. assignment i = 1" by (simp only: list_all_iff)
    moreover from that have "i \<in> set [1..<n_of P + 1]" by auto
    ultimately have "assignment i = 1" by blast
    with cnt [of i] show ?thesis by simp
  qed
  have "distinct (concat sch)"
    unfolding distinct_count_atmost_1 count_mset
  proof (intro allI)
    fix a
    show "count_list (concat sch) a = (if a \<in> set (concat sch) then 1 else 0)"
    proof (cases "a \<in> set (concat sch)")
      case True
      with range have "1 \<le> a \<and> a \<le> n_of P" by (auto simp: list_all_iff)
      with one True show ?thesis by simp
    next
      case False
      then show ?thesis by simp
    qed
  qed
  with len range show "wf_schedule P sch" by (simp add: wf_schedule_def)
  show "i \<in> set (concat sch)" if "1 \<le> i" "i \<le> n_of P" for i
    using one [OF that] by (metis count_list_0_iff zero_neq_one)
  from rest show "list_all (\<lambda>i. technology P i = REMOTE) (sch ! 0)"
    and "list_all (\<lambda>l. list_all (\<lambda>i. technology P i = MANUAL) (sch ! l)) [1..<m_of P + 1]"
    and "precedence_check P (start_time P sch)" by simp_all
qed

lemma dle_slack: "0 \<le> e \<Longrightarrow> dle x y \<Longrightarrow> dle (dadd x (Fin (- e))) y"
  by (cases x; cases y) simp_all

lemma THRESHOLD_nonneg: "0 \<le> THRESHOLD"
  by (simp add: THRESHOLD_def)

text \<open>
  Claim C5.  For a well-formed problem and a schedule that \<open>is_feasible\<close> accepts,
  every direct precedence \<open>i \<rightarrow> j\<close> (\<open>i\<close> in \<open>predecessors[j]\<close>, \<open>j\<close> in
  \<open>1..n\<close>) has \<open>t[i] + p[i] - THRESHOLD \<le> t[j]\<close> for the start times \<open>t\<close>
  of the simulator.
\<close>

theorem feasible_precedence_slack:
  assumes "wf_problem P" and "is_feasible P sch"
    and "1 \<le> j" and "j \<le> n_of P" and "i \<in> set (predecessors P j)"
  shows "dle (dadd (dadd (start_time P sch i) (Fin (p_of P i))) (Fin (- THRESHOLD)))
           (start_time P sch j)"
proof -
  from is_feasibleD(1) [OF assms(2)] have wfs: "wf_schedule P sch" .
  from assms(3) have "j \<noteq> 0" by simp
  from start_time_precedence [OF assms(1) wfs this assms(5)]
  show ?thesis by (rule dle_slack [OF THRESHOLD_nonneg])
qed

lemma wf_problem_P_manual: "wf_problem P_manual"
  by (simp add: wf_problem_def P_manual_def upt_rec)

lemma is_feasible_P_manual: "is_feasible P_manual [[], [1, 2]]"
  by (simp add: is_feasible_def count_assignment_def precedence_check_def less_def
      P_manual_def sim_eval)

lemma start_time_P_manual:
  "start_time P_manual [[], [1, 2]] 1 = Fin 0" "start_time P_manual [[], [1, 2]] 2 = Fin 1"
  by (simp_all add: P_manual_def sim_eval)

theorem feasible_precedence_slack_witness:
  "wf_problem P_manual \<and> is_feasible P_manual [[], [1, 2]] \<and> (1::nat) \<le> 2 \<and> 2 \<le> n_of P_manual \<and>
   1 \<in> set (predecessors P_manual 2) \<and>
   start_time P_manual [[], [1, 2]] 1 = Fin 0 \<and> start_time P_manual [[], [1, 2]] 2 = Fin 1 \<and>
   dle (dadd (dadd (start_time P_manual [[], [1, 2]] 1) (Fin (p_of P_manual 1))) (Fin (- THRESHOLD)))
     (start_time P_manual [[], [1, 2]] 2)"
proof -
  have a: "(1::nat) \<le> 2" "2 \<le> n_of P_manual" "1 \<in> set (predecessors P_manual 2)"
    by (simp_all add: P_manual_def)
  from feasible_precedence_slack [OF wf_problem_P_manual is_feasible_P_manual a]
    wf_problem_P_manual is_feasible_P_manual a start_time_P_manual
  show ?thesis by simp
qed


section \<open>The makespan computed by \<open>evaluate\<close>\<close>

lemma dle_antisym: "dle a b \<Longrightarrow> dle b a \<Longrightarrow> a = b"
  by (cases a; cases b) simp_all

lemma fold_dmax_bounds:
  assumes "v \<noteq> PInf" and "\<forall>i\<in>set xs. c i \<noteq> PInf"
  shows "fold (\<lambda>i mk. dmax mk (c i)) xs v \<noteq> PInf \<and>
         dle v (fold (\<lambda>i mk. dmax mk (c i)) xs v) \<and>
         (\<forall>i\<in>set xs. dle (c i) (fold (\<lambda>i mk. dmax mk (c i)) xs v)) \<and>
         (fold (\<lambda>i mk. dmax mk (c i)) xs v = v \<or> fold (\<lambda>i mk. dmax mk (c i)) xs v \<in> c ` set xs)"
  using assms
proof (induction xs arbitrary: v)
  case Nil
  then show ?case by simp
next
  case (Cons x xs)
  let ?v = "dmax v (c x)"
  let ?r = "fold (\<lambda>i mk. dmax mk (c i)) xs ?v"
  from Cons.prems obtain a b where ab: "v = Fin a" "c x = Fin b"
    by (cases v; cases "c x") auto
  then have fin: "?v \<noteq> PInf" by simp
  from Cons.prems(2) have rest: "\<forall>i\<in>set xs. c i \<noteq> PInf" by simp
  from Cons.IH [OF fin rest]
  have ih: "?r \<noteq> PInf" "dle ?v ?r" "\<forall>i\<in>set xs. dle (c i) ?r" "?r = ?v \<or> ?r \<in> c ` set xs"
    by simp_all
  have v: "?v = v \<or> ?v = c x" by (simp add: dmax_def)
  have "dle v ?r" using dle_trans [OF dmax_upper(1) ih(2)] .
  moreover have "dle (c x) ?r" using dle_trans [OF dmax_upper(2) ih(2)] .
  moreover have "?r = v \<or> ?r \<in> c ` set (x # xs)" using ih(4) v by auto
  ultimately show ?case using ih by simp
qed

lemma fst_fold_lanes:
  "fst (fold (\<lambda>l (mk, sc). if sch ! l \<noteq> []
                            then (dmax mk (c (last (sch ! l))), dadd sc (c (last (sch ! l))))
                            else (mk, sc)) ls (mk, sc))
   = fold (\<lambda>i mk. dmax mk (c i)) (map (\<lambda>l. last (sch ! l)) (filter (\<lambda>l. sch ! l \<noteq> []) ls)) mk"
  by (induction ls arbitrary: mk sc) simp_all

lemma fst_case_pair: "fst (case q of (a, b) \<Rightarrow> (g a, b)) = g (fst q)"
  by (cases q) simp

lemma fst_evaluate:
  "fst (evaluate P sch)
   = fold (\<lambda>i mk. dmax mk (dadd (start_time P sch i) (Fin (p_of P i)))) (sch ! 0)
       (fold (\<lambda>i mk. dmax mk (dadd (start_time P sch i) (Fin (p_of P i))))
          (map (\<lambda>l. last (sch ! l)) (filter (\<lambda>l. sch ! l \<noteq> []) [1..<m_of P + 1])) (Fin 0))"
proof -
  let ?c = "\<lambda>i. dadd (start_time P sch i) (Fin (p_of P i))"
  have "fst (evaluate P sch)
      = fold (\<lambda>i mk. dmax mk (?c i)) (sch ! 0)
          (fst (fold (\<lambda>l (mk, sc). if sch ! l \<noteq> []
                            then (dmax mk (?c (last (sch ! l))), dadd sc (?c (last (sch ! l))))
                            else (mk, sc)) [1..<m_of P + 1] (Fin 0, Fin 0)))"
    unfolding evaluate_def Let_def by (simp only: fst_case_pair)
  then show ?thesis by (simp only: fst_fold_lanes [where c = ?c])
qed

lemma finite_start_released:
  assumes "wf_problem P" and "wf_schedule P sch" and "j \<noteq> 0" and "start_time P sch j \<noteq> PInf"
  shows "j \<in> released sch (sim_index (final_state P sch))"
  using final_inv [OF assms(1,2)] assms(3,4) unfolding sim_inv_def start_time_final by blast

lemma finite_start_position:
  assumes wfp: "wf_problem P" and wfs: "wf_schedule P sch"
    and l: "l < length sch" and a: "a < length (sch ! l)"
    and fin: "start_time P sch (sch ! l ! a) \<noteq> PInf"
  shows "a < sim_index (final_state P sch) l"
proof -
  from wf_schedule_range [OF wfs nth_nth_in_concat [OF l a]] have "sch ! l ! a \<noteq> 0" by simp
  from finite_start_released [OF wfp wfs this fin]
  obtain l' a' where h: "l' < length sch" "a' < sim_index (final_state P sch) l'"
    "a' < length (sch ! l')" "sch ! l ! a = sch ! l' ! a'"
    unfolding released_def by blast
  from wfs have "distinct (concat sch)" by (simp add: wf_schedule_def)
  from concat_position_inj [OF this l h(1) a h(3) h(4)] have "l = l'" "a = a'" by auto
  with h(2) show ?thesis by simp
qed

lemma lane_order:
  assumes wfp: "wf_problem P" and wfs: "wf_schedule P sch"
    and l: "l < length sch" and pos: "0 < l" and a: "a < length (sch ! l)"
    and fin: "start_time P sch (sch ! l ! a) \<noteq> PInf"
  shows "dle (travel_start P (start_time P sch) (lane_prev sch l a) (sch ! l ! a) l)
           (start_time P sch (sch ! l ! a))"
proof -
  from finite_start_position [OF wfp wfs l a fin]
  have "a < sim_index (final_state P sch) l" .
  with final_inv [OF wfp wfs] l pos show ?thesis
    unfolding sim_inv_def start_time_final by blast
qed

lemma completion_step:
  assumes "0 \<le> p_of P j" and "0 \<le> s_of P i j l"
    and "dle (travel_start P tv i j l) (tv j)"
  shows "dle (dadd (tv i) (Fin (p_of P i))) (dadd (tv j) (Fin (p_of P j)))"
  using assms by (cases "tv i"; cases "tv j") (simp_all add: travel_start_def)

text \<open>Non-negative processing times, and travel times between operations.\<close>

definition nonneg_times :: "Problem \<Rightarrow> bool" where
  "nonneg_times P =
     list_all (\<lambda>i. 0 \<le> p_of P i \<and>
        list_all (\<lambda>j. list_all (\<lambda>l. 0 \<le> s_of P i j l) [1..<m_of P + 1]) [1..<n_of P + 1])
       [1..<n_of P + 1]"

lemma nonneg_timesD:
  assumes "nonneg_times P" and "1 \<le> i" and "i \<le> n_of P"
  shows "0 \<le> p_of P i"
    and "1 \<le> j \<Longrightarrow> j \<le> n_of P \<Longrightarrow> 1 \<le> l \<Longrightarrow> l \<le> m_of P \<Longrightarrow> 0 \<le> s_of P i j l"
proof -
  from assms(2,3) have i: "i \<in> set [1..<n_of P + 1]" by auto
  with assms(1) have h: "0 \<le> p_of P i \<and>
      list_all (\<lambda>j. list_all (\<lambda>l. 0 \<le> s_of P i j l) [1..<m_of P + 1]) [1..<n_of P + 1]"
    unfolding nonneg_times_def list_all_iff by blast
  then show "0 \<le> p_of P i" ..
  assume "1 \<le> j" "j \<le> n_of P" "1 \<le> l" "l \<le> m_of P"
  then have j: "j \<in> set [1..<n_of P + 1]" and l: "l \<in> set [1..<m_of P + 1]" by auto
  from h j have "list_all (\<lambda>l. 0 \<le> s_of P i j l) [1..<m_of P + 1]"
    unfolding list_all_iff by blast
  with l show "0 \<le> s_of P i j l" unfolding list_all_iff by blast
qed

lemma lane_completion_mono:
  assumes wfp: "wf_problem P" and wfs: "wf_schedule P sch"
    and l: "l < length sch" and pos: "0 < l"
    and fin: "\<forall>j\<in>set (sch ! l). start_time P sch j \<noteq> PInf"
    and nn: "nonneg_times P"
  shows "a \<le> b \<Longrightarrow> b < length (sch ! l) \<Longrightarrow>
         dle (dadd (start_time P sch (sch ! l ! a)) (Fin (p_of P (sch ! l ! a))))
             (dadd (start_time P sch (sch ! l ! b)) (Fin (p_of P (sch ! l ! b))))"
proof (induction b)
  case 0
  then show ?case by simp
next
  case (Suc b)
  show ?case
  proof (cases "a = Suc b")
    case True
    then show ?thesis by simp
  next
    case False
    with Suc.prems have ab: "a \<le> b" and b: "b < length (sch ! l)" by simp_all
    from Suc.prems(2) fin have "start_time P sch (sch ! l ! Suc b) \<noteq> PInf" by simp
    from lane_order [OF wfp wfs l pos Suc.prems(2) this]
    have "dle (travel_start P (start_time P sch) (sch ! l ! b) (sch ! l ! Suc b) l)
            (start_time P sch (sch ! l ! Suc b))" by (simp add: lane_prev_def)
    moreover from wf_schedule_range [OF wfs nth_nth_in_concat [OF l b]]
    have rb: "1 \<le> sch ! l ! b" "sch ! l ! b \<le> n_of P" by simp_all
    from wf_schedule_range [OF wfs nth_nth_in_concat [OF l Suc.prems(2)]]
    have rs: "1 \<le> sch ! l ! Suc b" "sch ! l ! Suc b \<le> n_of P" by simp_all
    from wfs l pos have rl: "1 \<le> l" "l \<le> m_of P" by (simp_all add: wf_schedule_def)
    note nonneg_timesD(1) [OF nn rs] nonneg_timesD(2) [OF nn rb rs rl]
    ultimately have "dle (dadd (start_time P sch (sch ! l ! b)) (Fin (p_of P (sch ! l ! b))))
            (dadd (start_time P sch (sch ! l ! Suc b)) (Fin (p_of P (sch ! l ! Suc b))))"
      by (intro completion_step)
    with Suc.IH [OF ab b] show ?thesis by (rule dle_trans)
  qed
qed

text \<open>
  Claim C9.  With non-negative processing and travel times, on a well-formed
  schedule all of whose operations receive a finite start time, the first
  component of \<open>evaluate\<close> (the last operation of every non-empty manual lane,
  then every operation of lane 0) is \<open>makespan\<close> (every operation 1..n):
  completion times do not decrease along a manual lane.
\<close>

theorem evaluate_makespan:
  assumes wfp: "wf_problem P" and wfs: "wf_schedule P sch"
    and fin: "list_all (\<lambda>i. start_time P sch i \<noteq> PInf) [1..<n_of P + 1]"
    and nn: "nonneg_times P"
  shows "fst (evaluate P sch) = makespan P sch"
proof -
  define c where "c = (\<lambda>i. dadd (start_time P sch i) (Fin (p_of P i)))"
  define L where "L = map (\<lambda>l. last (sch ! l)) (filter (\<lambda>l. sch ! l \<noteq> []) [1..<m_of P + 1])"
  define M1 where "M1 = fold (\<lambda>i mk. dmax mk (c i)) [1..<n_of P + 1] (Fin 0)"
  define M2' where "M2' = fold (\<lambda>i mk. dmax mk (c i)) L (Fin 0)"
  define M2 where "M2 = fold (\<lambda>i mk. dmax mk (c i)) (sch ! 0) M2'"
  have mk: "makespan P sch = M1" by (simp add: makespan_def Let_def M1_def c_def)
  have ev: "fst (evaluate P sch) = M2"
    unfolding fst_evaluate M2_def M2'_def L_def c_def ..
  from wfs have len: "length sch = m_of P + 1" by (simp add: wf_schedule_def)
  have finite: "start_time P sch i \<noteq> PInf" if "1 \<le> i" "i \<le> n_of P" for i
  proof -
    from that have "i \<in> set [1..<n_of P + 1]" by auto
    with fin show ?thesis unfolding list_all_iff by blast
  qed
  have cfin: "c i \<noteq> PInf" if "1 \<le> i" "i \<le> n_of P" for i
    using finite [OF that] by (cases "start_time P sch i") (simp_all add: c_def)
  have in_sch: "c i \<noteq> PInf" if "i \<in> set (concat sch)" for i
    using wf_schedule_range [OF wfs that] cfin by simp
  have lane_in: "set (sch ! l) \<subseteq> set (concat sch)" if "l < length sch" for l
    using that nth_nth_in_concat [of l sch] by (auto simp: in_set_conv_nth)
  have L_in: "set L \<subseteq> set (concat sch)"
  proof
    fix i assume "i \<in> set L"
    then obtain l where l: "1 \<le> l" "l < m_of P + 1" "sch ! l \<noteq> []" "i = last (sch ! l)"
      unfolding L_def by auto
    from l(3,4) have "i \<in> set (sch ! l)" by simp
    moreover from l(2) len have "l < length sch" by simp
    from lane_in [OF this] have "set (sch ! l) \<subseteq> set (concat sch)" .
    ultimately show "i \<in> set (concat sch)" by blast
  qed
  have zero: "Fin 0 \<noteq> PInf" by simp
  have "\<forall>i\<in>set [1..<n_of P + 1]. c i \<noteq> PInf" using cfin by auto
  from fold_dmax_bounds [OF zero this]
  have b1: "M1 \<noteq> PInf" "dle (Fin 0) M1" "\<forall>i\<in>set [1..<n_of P + 1]. dle (c i) M1"
    "M1 = Fin 0 \<or> M1 \<in> c ` set [1..<n_of P + 1]"
    unfolding M1_def by simp_all
  have "\<forall>i\<in>set L. c i \<noteq> PInf" using in_sch L_in by blast
  from fold_dmax_bounds [OF zero this]
  have b2': "M2' \<noteq> PInf" "dle (Fin 0) M2'" "\<forall>i\<in>set L. dle (c i) M2'"
    "M2' = Fin 0 \<or> M2' \<in> c ` set L"
    unfolding M2'_def by simp_all
  have "0 < length sch" using len by simp
  from lane_in [OF this] have lane0: "set (sch ! 0) \<subseteq> set (concat sch)" .
  have "\<forall>i\<in>set (sch ! 0). c i \<noteq> PInf" using in_sch lane0 by blast
  from fold_dmax_bounds [OF b2'(1) this]
  have b2: "M2 \<noteq> PInf" "dle M2' M2" "\<forall>i\<in>set (sch ! 0). dle (c i) M2"
    "M2 = M2' \<or> M2 \<in> c ` set (sch ! 0)"
    unfolding M2_def by simp_all
  have upper1: "dle (c i) M1" if "i \<in> set (concat sch)" for i
  proof -
    from wf_schedule_range [OF wfs that] have "i \<in> set [1..<n_of P + 1]" by auto
    with b1(3) show ?thesis by blast
  qed
  have le21: "dle M2 M1"
  proof -
    have "dle M2' M1"
      using b2'(4)
    proof
      assume "M2' = Fin 0" with b1(2) show ?thesis by simp
    next
      assume "M2' \<in> c ` set L"
      then obtain i where "i \<in> set L" "M2' = c i" by blast
      with L_in have "i \<in> set (concat sch)" "M2' = c i" by blast+
      with upper1 [of i] show ?thesis by simp
    qed
    from b2(4) show ?thesis
    proof
      assume "M2 = M2'" with \<open>dle M2' M1\<close> show ?thesis by simp
    next
      assume "M2 \<in> c ` set (sch ! 0)"
      then obtain i where "i \<in> set (sch ! 0)" "M2 = c i" by blast
      with lane0 have "i \<in> set (concat sch)" "M2 = c i" by blast+
      with upper1 [of i] show ?thesis by simp
    qed
  qed
  have upper2: "dle (c i) M2" if i: "1 \<le> i" "i \<le> n_of P" for i
  proof -
    from i have i0: "i \<noteq> 0" by simp
    from finite_start_released [OF wfp wfs i0 finite [OF i]]
    obtain l a where h: "l < length sch" "a < length (sch ! l)" "i = sch ! l ! a"
      unfolding released_def by blast
    show ?thesis
    proof (cases "l = 0")
      case True
      with h have "i \<in> set (sch ! 0)" by simp
      with b2(3) show ?thesis by blast
    next
      case False
      then have pos: "0 < l" by simp
      from h(2) have ne: "sch ! l \<noteq> []" by auto
      let ?b = "length (sch ! l) - 1"
      have lastb: "last (sch ! l) = sch ! l ! ?b" using ne by (rule last_conv_nth)
      have "\<forall>j\<in>set (sch ! l). start_time P sch j \<noteq> PInf"
      proof
        fix j assume "j \<in> set (sch ! l)"
        with lane_in [OF h(1)] have "j \<in> set (concat sch)" by blast
        from wf_schedule_range [OF wfs this] finite show "start_time P sch j \<noteq> PInf" by simp
      qed
      from lane_completion_mono [OF wfp wfs h(1) pos this nn, of a ?b] h(2)
      have "dle (c (sch ! l ! a)) (c (sch ! l ! ?b))" by (simp add: c_def)
      with h(3) lastb have 1: "dle (c i) (c (last (sch ! l)))" by simp
      from pos h(1) len have "l \<in> set [1..<m_of P + 1]" by auto
      with ne have "l \<in> set (filter (\<lambda>l. sch ! l \<noteq> []) [1..<m_of P + 1])"
        by (simp only: set_filter mem_Collect_eq) simp
      then have "last (sch ! l) \<in> set L" unfolding L_def set_map by (rule imageI)
      with b2'(3) have "dle (c (last (sch ! l))) M2'" by blast
      from dle_trans [OF 1 dle_trans [OF this b2(2)]] show ?thesis .
    qed
  qed
  have le12: "dle M1 M2"
    using b1(4)
  proof
    assume "M1 = Fin 0"
    with dle_trans [OF b2'(2) b2(2)] show ?thesis by simp
  next
    assume "M1 \<in> c ` set [1..<n_of P + 1]"
    then obtain i where "i \<in> set [1..<n_of P + 1]" "M1 = c i" by blast
    with upper2 [of i] show ?thesis by auto
  qed
  from dle_antisym [OF le21 le12] mk ev show ?thesis by simp
qed

definition P_negative :: Problem where
  "P_negative = \<lparr> n_of = 2, m_of = 1, technology = (\<lambda>_. MANUAL),
     p_of = (\<lambda>i. if i = 1 then 5 else if i = 2 then 1 else 0),
     s_of = (\<lambda>i j l. if i = 1 \<and> j = 2 \<and> l = 1 then - 3 else 0),
     predecessors = (\<lambda>_. []), successors = (\<lambda>_. []) \<rparr>"

lemma wf_schedule_P_manual: "wf_schedule P_manual [[], [1, 2]]"
  by (simp add: wf_schedule_def P_manual_def)

lemma nonneg_times_P_manual: "nonneg_times P_manual"
  by (simp add: nonneg_times_def P_manual_def upt_rec)

theorem evaluate_makespan_witness:
  "wf_problem P_manual \<and> wf_schedule P_manual [[], [1, 2]] \<and>
   list_all (\<lambda>i. start_time P_manual [[], [1, 2]] i \<noteq> PInf) [1..<n_of P_manual + 1] \<and>
   nonneg_times P_manual \<and>
   fst (evaluate P_manual [[], [1, 2]]) = makespan P_manual [[], [1, 2]] \<and>
   makespan P_manual [[], [1, 2]] = Fin 2"
proof -
  have fin: "list_all (\<lambda>i. start_time P_manual [[], [1, 2]] i \<noteq> PInf) [1..<n_of P_manual + 1]"
    by (simp add: P_manual_def sim_eval)
  have mk: "makespan P_manual [[], [1, 2]] = Fin 2"
    by (simp add: makespan_def P_manual_def sim_eval)
  from evaluate_makespan [OF wf_problem_P_manual wf_schedule_P_manual fin nonneg_times_P_manual]
    wf_problem_P_manual wf_schedule_P_manual fin nonneg_times_P_manual mk
  show ?thesis by simp
qed

text \<open>
  Without the sign condition the two values differ: on \<open>P_negative\<close> the travel
  time from operation 1 to operation 2 is negative, the only team finishes
  operation 2 at time 3 and operation 1 at time 5.
\<close>

theorem evaluate_below_makespan:
  "wf_problem P_negative \<and> wf_schedule P_negative [[], [1, 2]] \<and>
   start_time P_negative [[], [1, 2]] 1 = Fin 0 \<and>
   start_time P_negative [[], [1, 2]] 2 = Fin 2 \<and>
   fst (evaluate P_negative [[], [1, 2]]) = Fin 3 \<and>
   makespan P_negative [[], [1, 2]] = Fin 5"
  by (simp add: wf_problem_def wf_schedule_def evaluate_def makespan_def P_negative_def sim_eval)


section \<open>The makespan returned by the greedy constructor\<close>

lemma wait_scheduled_other: "k \<noteq> j \<Longrightarrow> wait_scheduled P j tv k = tv k"
proof -
  have "k \<noteq> j \<Longrightarrow> fold (\<lambda>i tv'. tv'(j := max (tv' j) (tv' i + p_of P i))) ps tv k = tv k" for ps
    by (induction ps arbitrary: tv) simp_all
  then show "k \<noteq> j \<Longrightarrow> wait_scheduled P j tv k = tv k" by (simp add: wait_scheduled_def)
qed

text \<open>What scheduling remote operations leaves unchanged.\<close>

definition manual_frame :: "Problem \<Rightarrow> greedy_state \<Rightarrow> greedy_state \<Rightarrow> bool" where
  "manual_frame P st st' =
     (S_manual st' = S_manual st \<and> g_makespan st' = g_makespan st \<and>
      (\<forall>k. technology P k = MANUAL \<longrightarrow> g_t st' k = g_t st k))"

lemma manual_frame_refl: "manual_frame P st st"
  by (simp add: manual_frame_def)

lemma manual_frame_trans:
  "manual_frame P st st' \<Longrightarrow> manual_frame P st' st'' \<Longrightarrow> manual_frame P st st''"
  by (simp add: manual_frame_def)

lemma schedule_remote_frame:
  "technology P j \<noteq> MANUAL \<Longrightarrow> manual_frame P st (schedule_remote P j st)"
proof -
  assume j: "technology P j \<noteq> MANUAL"
  have "g_t (schedule_remote P j st) k = g_t st k" if "technology P k = MANUAL" for k
  proof -
    from that j have "k \<noteq> j" by auto
    from wait_scheduled_other [OF this] this show ?thesis by (simp add: schedule_remote_def)
  qed
  then show ?thesis by (simp add: manual_frame_def schedule_remote_def)
qed

lemma remote_pass_frame:
  assumes "\<forall>j\<in>set js. technology P j \<noteq> MANUAL"
  shows "set (fst (remote_pass P js stop st)) \<subseteq> set js \<and>
         manual_frame P st (snd (snd (remote_pass P js stop st)))"
  using assms
proof (induction js arbitrary: stop st)
  case Nil
  then show ?case by (simp add: manual_frame_refl)
next
  case (Cons j js)
  then have j: "technology P j \<noteq> MANUAL" and js: "\<forall>j\<in>set js. technology P j \<noteq> MANUAL"
    by simp_all
  show ?case
  proof (cases "gamma st j = 0")
    case True
    from Cons.IH [OF js, of False "schedule_remote P j st"] schedule_remote_frame [OF j, of st]
    show ?thesis using True by (auto intro: manual_frame_trans)
  next
    case False
    from Cons.IH [OF js, of stop st]
    show ?thesis using False by (auto split: prod.splits)
  qed
qed

lemma remote_drain_frame:
  "\<forall>j\<in>set (S_remote st). technology P j \<noteq> MANUAL \<Longrightarrow>
   manual_frame P st (remote_drain P st) \<and>
   (\<forall>j\<in>set (S_remote (remote_drain P st)). technology P j \<noteq> MANUAL)"
proof (induction P st rule: remote_drain.induct)
  case (1 P st)
  obtain kept stop st' where rp: "remote_pass P (S_remote st) True st = (kept, stop, st')"
    by (cases "remote_pass P (S_remote st) True st") auto
  from remote_pass_frame [OF "1.prems", of True st] rp
  have kept: "set kept \<subseteq> set (S_remote st)" and fr: "manual_frame P st st'" by simp_all
  from fr have fr': "manual_frame P st (st'\<lparr> S_remote := kept \<rparr>)"
    by (simp add: manual_frame_def)
  from kept "1.prems" have rem: "\<forall>j\<in>set (S_remote (st'\<lparr> S_remote := kept \<rparr>)). technology P j \<noteq> MANUAL"
    by auto
  show ?case
  proof (cases stop)
    case True
    with rp have "remote_drain P st = st'\<lparr> S_remote := kept \<rparr>"
      by (subst remote_drain.simps) simp
    with fr' rem show ?thesis by simp
  next
    case False
    with rp have eq: "remote_drain P st = remote_drain P (st'\<lparr> S_remote := kept \<rparr>)"
      by (subst remote_drain.simps) simp
    from "1.IH" [OF rp [symmetric] refl False rem] fr' show ?thesis
      unfolding eq by (auto intro: manual_frame_trans)
  qed
qed

lemma candidates_member:
  "(j, l) \<in> set (candidates P st) \<Longrightarrow>
   j \<in> set (S_manual st) \<and> gamma st j = 0 \<and> 1 \<le> l \<and> l \<le> m_of P"
  unfolding candidates_def by (auto split: if_splits)

lemma choose_fold_member:
  "snd (fold (\<lambda>(j_trial, l_trial) (criterion, jl).
             if c j_trial l_trial < criterion
             then (c j_trial l_trial, Some (j_trial, l_trial))
             else (criterion, jl)) xs (v, jl)) = Some x \<Longrightarrow> jl = Some x \<or> x \<in> set xs"
proof (induction xs arbitrary: v jl)
  case Nil
  then show ?case by simp
next
  case (Cons y ys)
  obtain a b where y: "y = (a, b)" by (cases y)
  from Cons.prems Cons.IH [of "c a b" "Some (a, b)"] Cons.IH [of v jl]
  show ?case unfolding y by (auto split: if_splits)
qed

lemma choose_pair_member:
  assumes "snd (choose_pair P st) = Some (j, l)"
  shows "j \<in> set (S_manual st)" "gamma st j = 0" "1 \<le> l" "l \<le> m_of P"
proof -
  from assms choose_fold_member [of "criterion_of P st" "candidates P st" DBL_MAX None "(j, l)"]
  have "(j, l) \<in> set (candidates P st)" by (simp add: choose_pair_def)
  from candidates_member [OF this]
  show "j \<in> set (S_manual st)" "gamma st j = 0" "1 \<le> l" "l \<le> m_of P" by simp_all
qed

lemma greedy_loop_rule:
  assumes run: "greedy_loop P st = Some (Inr st')"
    and init: "I st"
    and drain: "\<And>s. I s \<Longrightarrow> I (remote_drain P s)"
    and manual: "\<And>s j l. I s \<Longrightarrow> S_manual (remote_drain P s) \<noteq> [] \<Longrightarrow>
        snd (choose_pair P (remote_drain P s)) = Some (j, l) \<Longrightarrow>
        I (schedule_manual P j l (remote_drain P s))"
  shows "I st' \<and> S_manual st' = [] \<and> S_remote st' = []"
proof -
  define Q :: "Problem \<times> greedy_state \<Rightarrow> greedy_error + greedy_state \<Rightarrow> bool"
    where "Q = (\<lambda>x r. fst x = P \<longrightarrow> I (snd x) \<longrightarrow>
                 (\<forall>s'. r = Inr s' \<longrightarrow> I s' \<and> S_manual s' = [] \<and> S_remote s' = []))"
  have QD: "I s' \<and> S_manual s' = [] \<and> S_remote s' = []" if "Q (P, s) (Inr s')" "I s" for s s'
    using that unfolding Q_def by simp
  have "Q (P, st) (Inr st')"
  proof (rule greedy_loop.raw_induct [where Pa = Q, OF _ run])
    fix f :: "Problem \<Rightarrow> greedy_state \<Rightarrow> (greedy_error + greedy_state) option"
      and P' s r
    assume IH: "\<And>P s r. f P s = Some r \<Longrightarrow> Q (P, s) r"
      and eq: "(if length (S_manual s) + length (S_remote s) > 0 then
                 (if length (S_manual (remote_drain P' s)) > 0 then
                    (case snd (choose_pair P' (remote_drain P' s)) of
                       None \<Rightarrow> Some (Inl UninitializedChoice)
                     | Some (j, l) \<Rightarrow> f P' (schedule_manual P' j l (remote_drain P' s)))
                  else f P' (remote_drain P' s))
               else Some (Inr s)) = Some r"
    show "Q (P', s) r"
      unfolding Q_def fst_conv snd_conv
    proof (intro impI allI)
      fix s'
      assume P': "P' = P" and Is: "I s" and r: "r = Inr s'"
      note eq' = eq [unfolded P' r]
      show "I s' \<and> S_manual s' = [] \<and> S_remote s' = []"
      proof (cases "length (S_manual s) + length (S_remote s) > 0")
        case False
        from eq' False have "s' = s" by simp
        with False Is show ?thesis by simp
      next
        case pos: True
        from eq' have eq2: "(if length (S_manual (remote_drain P s)) > 0 then
                    (case snd (choose_pair P (remote_drain P s)) of
                       None \<Rightarrow> Some (Inl UninitializedChoice)
                     | Some (j, l) \<Rightarrow> f P (schedule_manual P j l (remote_drain P s)))
                  else f P (remote_drain P s)) = Some (Inr s')"
          using pos by simp
        show ?thesis
        proof (cases "length (S_manual (remote_drain P s)) > 0")
          case False
          from eq2 False have "f P (remote_drain P s) = Some (Inr s')" by simp
          from QD [OF IH [OF this] drain [OF Is]] show ?thesis .
        next
          case man: True
          from eq2 have eq3: "(case snd (choose_pair P (remote_drain P s)) of
                       None \<Rightarrow> Some (Inl UninitializedChoice)
                     | Some (j, l) \<Rightarrow> f P (schedule_manual P j l (remote_drain P s))) = Some (Inr s')"
            using man by simp
          from man have ne: "S_manual (remote_drain P s) \<noteq> []" by simp
          show ?thesis
          proof (cases "snd (choose_pair P (remote_drain P s))")
            case None
            from eq3 None have False by simp
            then show ?thesis ..
          next
            case (Some jl)
            obtain j l where jl: "jl = (j, l)" by (cases jl)
            from eq3 Some jl have "f P (schedule_manual P j l (remote_drain P s)) = Some (Inr s')"
              by simp
            from QD [OF IH [OF this] manual [OF Is ne Some [unfolded jl]]] show ?thesis .
          qed
        qed
      qed
    qed
  qed
  from QD [OF this init] show ?thesis .
qed

definition init_step :: "Problem \<Rightarrow> nat \<Rightarrow> greedy_state \<Rightarrow> greedy_state" where
  "init_step P i st =
     (let st1 = st\<lparr> gamma := (gamma st)(i := int (length (predecessors P i))) \<rparr> in
      if technology P i = MANUAL then st1\<lparr> S_manual := S_manual st1 @ [i] \<rparr>
      else if technology P i = REMOTE then st1\<lparr> S_remote := S_remote st1 @ [i] \<rparr>
      else st1)"

lemma init_step_fields:
  "S_manual (init_step P i st) = S_manual st @ filter (\<lambda>i. technology P i = MANUAL) [i]"
  "S_remote (init_step P i st) = S_remote st @ filter (\<lambda>i. technology P i = REMOTE) [i]"
  "g_schedule (init_step P i st) = g_schedule st"
  "g_makespan (init_step P i st) = g_makespan st"
  "g_t (init_step P i st) = g_t st"
  "phi (init_step P i st) = phi st"
  "gamma (init_step P i st) = (gamma st)(i := int (length (predecessors P i)))"
  by (simp_all add: init_step_def Let_def)

lemma greedy_init_fold:
  "S_manual (fold (init_step P) xs st) = S_manual st @ filter (\<lambda>i. technology P i = MANUAL) xs"
  "S_remote (fold (init_step P) xs st) = S_remote st @ filter (\<lambda>i. technology P i = REMOTE) xs"
  "g_schedule (fold (init_step P) xs st) = g_schedule st"
  "g_makespan (fold (init_step P) xs st) = g_makespan st"
  "g_t (fold (init_step P) xs st) = g_t st"
  "phi (fold (init_step P) xs st) = phi st"
  "gamma (fold (init_step P) xs st) i
     = (if i \<in> set xs then int (length (predecessors P i)) else gamma st i)"
proof (induction xs arbitrary: st)
  case Nil
  {
    case 1 show ?case by simp
  next
    case 2 show ?case by simp
  next
    case 3 show ?case by simp
  next
    case 4 show ?case by simp
  next
    case 5 show ?case by simp
  next
    case 6 show ?case by simp
  next
    case 7 show ?case by simp
  }
next
  case (Cons x xs)
  {
    case 1 show ?case by (simp add: Cons.IH(1) init_step_fields(1))
  next
    case 2 show ?case by (simp add: Cons.IH(2) init_step_fields(2))
  next
    case 3 show ?case by (simp add: Cons.IH(3) init_step_fields(3))
  next
    case 4 show ?case by (simp add: Cons.IH(4) init_step_fields(4))
  next
    case 5 show ?case by (simp add: Cons.IH(5) init_step_fields(5))
  next
    case 6 show ?case by (simp add: Cons.IH(6) init_step_fields(6))
  next
    case 7 show ?case by (simp add: Cons.IH(7) init_step_fields(7))
  }
qed

lemma greedy_init_alt:
  "greedy_init P = fold (init_step P) [1..<n_of P + 1]
       \<lparr> g_schedule = create_empty_schedule (m_of P), g_makespan = 0, S_manual = [], S_remote = [],
         g_t = (\<lambda>_. 0), gamma = (\<lambda>_. 0), phi = (\<lambda>_. 0) \<rparr>"
proof -
  have "init_step P = (\<lambda>i st.
        (let st1 = st\<lparr> gamma := (gamma st)(i := int (length (predecessors P i))) \<rparr> in
         if technology P i = MANUAL then st1\<lparr> S_manual := S_manual st1 @ [i] \<rparr>
         else if technology P i = REMOTE then st1\<lparr> S_remote := S_remote st1 @ [i] \<rparr>
         else st1))"
    by (intro ext) (simp only: init_step_def)
  then show ?thesis unfolding greedy_init_def by simp
qed

definition manual_ops :: "Problem \<Rightarrow> nat list" where
  "manual_ops P = filter (\<lambda>i. technology P i = MANUAL) [1..<n_of P + 1]"

definition remote_ops :: "Problem \<Rightarrow> nat list" where
  "remote_ops P = filter (\<lambda>i. technology P i = REMOTE) [1..<n_of P + 1]"

lemma greedy_init_fields:
  "S_manual (greedy_init P) = manual_ops P"
  "S_remote (greedy_init P) = remote_ops P"
  "g_schedule (greedy_init P) = create_empty_schedule (m_of P)"
  "g_makespan (greedy_init P) = 0"
  "g_t (greedy_init P) = (\<lambda>_. 0)"
  "phi (greedy_init P) = (\<lambda>_. 0)"
  "gamma (greedy_init P) i = (if 1 \<le> i \<and> i \<le> n_of P then int (length (predecessors P i)) else 0)"
proof -
  have mem: "i \<in> set [1..<n_of P + 1] \<longleftrightarrow> 1 \<le> i \<and> i \<le> n_of P" by auto
  show "S_manual (greedy_init P) = manual_ops P"
    unfolding greedy_init_alt greedy_init_fold manual_ops_def by simp
  show "S_remote (greedy_init P) = remote_ops P"
    unfolding greedy_init_alt greedy_init_fold remote_ops_def by simp
  show "g_schedule (greedy_init P) = create_empty_schedule (m_of P)"
    unfolding greedy_init_alt greedy_init_fold by simp
  show "g_makespan (greedy_init P) = 0"
    unfolding greedy_init_alt greedy_init_fold by simp
  show "g_t (greedy_init P) = (\<lambda>_. 0)"
    unfolding greedy_init_alt greedy_init_fold by simp
  show "phi (greedy_init P) = (\<lambda>_. 0)"
    unfolding greedy_init_alt greedy_init_fold by simp
  show "gamma (greedy_init P) i = (if 1 \<le> i \<and> i \<le> n_of P then int (length (predecessors P i)) else 0)"
    unfolding greedy_init_alt greedy_init_fold mem by simp
qed

text \<open>
  The invariant of the outer loop for the makespan: it is the largest completion
  time among the manual operations that have left \<open>S_manual\<close>.
\<close>

definition makespan_inv :: "Problem \<Rightarrow> greedy_state \<Rightarrow> bool" where
  "makespan_inv P st =
     (distinct (S_manual st) \<and> set (S_manual st) \<subseteq> set (manual_ops P) \<and>
      (\<forall>j\<in>set (S_remote st). technology P j \<noteq> MANUAL) \<and>
      g_makespan st = Max (insert 0 ((\<lambda>j. g_t st j + p_of P j) `
                                      (set (manual_ops P) - set (S_manual st)))))"

lemma manual_ops_technology: "j \<in> set (manual_ops P) \<Longrightarrow> technology P j = MANUAL"
  by (simp add: manual_ops_def)

lemma makespan_inv_init: "makespan_inv P (greedy_init P)"
  by (simp add: makespan_inv_def greedy_init_fields manual_ops_def remote_ops_def)

lemma makespan_inv_frame:
  assumes inv: "makespan_inv P st" and fr: "manual_frame P st st'"
    and rem: "\<forall>j\<in>set (S_remote st'). technology P j \<noteq> MANUAL"
  shows "makespan_inv P st'"
proof -
  from fr have eq: "S_manual st' = S_manual st" "g_makespan st' = g_makespan st"
    and t: "\<And>k. technology P k = MANUAL \<Longrightarrow> g_t st' k = g_t st k"
    by (simp_all add: manual_frame_def)
  have "(\<lambda>j. g_t st' j + p_of P j) ` (set (manual_ops P) - set (S_manual st))
      = (\<lambda>j. g_t st j + p_of P j) ` (set (manual_ops P) - set (S_manual st))"
    by (rule image_cong [OF refl]) (simp add: t manual_ops_technology)
  with inv rem show ?thesis by (simp add: makespan_inv_def eq)
qed

lemma makespan_inv_drain:
  assumes "makespan_inv P st"
  shows "makespan_inv P (remote_drain P st)"
proof -
  from assms have "\<forall>j\<in>set (S_remote st). technology P j \<noteq> MANUAL"
    by (simp add: makespan_inv_def)
  from remote_drain_frame [OF this] makespan_inv_frame [OF assms] show ?thesis by blast
qed

lemma schedule_manual_fields:
  "S_manual (schedule_manual P j l st) = removeAll j (S_manual st)"
  "S_remote (schedule_manual P j l st) = S_remote st"
  "g_makespan (schedule_manual P j l st)
     = max (g_makespan st) (g_t (schedule_manual P j l st) j + p_of P j)"
  "g_schedule (schedule_manual P j l st) = (g_schedule st)[l := g_schedule st ! l @ [j]]"
  "phi (schedule_manual P j l st) = (phi st)(l := j)"
  "gamma (schedule_manual P j l st) = update_pendings P j (gamma st)"
  "k \<noteq> j \<Longrightarrow> g_t (schedule_manual P j l st) k = g_t st k"
  by (simp_all add: schedule_manual_def Let_def wait_scheduled_other)

lemma makespan_inv_manual:
  assumes inv: "makespan_inv P st" and j: "j \<in> set (S_manual st)"
  shows "makespan_inv P (schedule_manual P j l st)"
proof -
  let ?st = "schedule_manual P j l st"
  let ?D = "set (manual_ops P) - set (S_manual st)"
  from inv have d: "distinct (S_manual st)" and sub: "set (S_manual st) \<subseteq> set (manual_ops P)"
    and rem: "\<forall>j\<in>set (S_remote st). technology P j \<noteq> MANUAL"
    and mk: "g_makespan st = Max (insert 0 ((\<lambda>j. g_t st j + p_of P j) ` ?D))"
    by (simp_all add: makespan_inv_def)
  from j sub have D: "set (manual_ops P) - set (removeAll j (S_manual st)) = insert j ?D"
    by auto
  have jD: "j \<notin> ?D" using j by simp
  have "(\<lambda>k. g_t ?st k + p_of P k) ` ?D = (\<lambda>k. g_t st k + p_of P k) ` ?D"
  proof (rule image_cong [OF refl])
    fix k assume "k \<in> ?D"
    with jD have "k \<noteq> j" by auto
    from schedule_manual_fields(7) [OF this]
    show "g_t ?st k + p_of P k = g_t st k + p_of P k" by simp
  qed
  then have img: "(\<lambda>k. g_t ?st k + p_of P k) ` insert j ?D
      = insert (g_t ?st j + p_of P j) ((\<lambda>k. g_t st k + p_of P k) ` ?D)"
    by (simp only: image_insert)
  have fin: "finite (insert 0 ((\<lambda>k. g_t st k + p_of P k) ` ?D))" by simp
  have "Max (insert 0 ((\<lambda>k. g_t ?st k + p_of P k) ` insert j ?D))
      = max (g_t ?st j + p_of P j) (Max (insert 0 ((\<lambda>k. g_t st k + p_of P k) ` ?D)))"
    unfolding img insert_commute [of 0] by (rule Max_insert [OF fin]) simp
  also have "\<dots> = g_makespan ?st"
    unfolding schedule_manual_fields(3) mk by (rule max.commute)
  finally have m: "g_makespan ?st = Max (insert 0 ((\<lambda>k. g_t ?st k + p_of P k) `
      (set (manual_ops P) - set (S_manual ?st))))"
    unfolding schedule_manual_fields(1) D by (rule sym)
  from d have "distinct (S_manual ?st)" by (simp add: schedule_manual_fields(1) distinct_removeAll)
  moreover from sub have "set (S_manual ?st) \<subseteq> set (manual_ops P)"
    by (auto simp: schedule_manual_fields(1))
  moreover from rem have "\<forall>j\<in>set (S_remote ?st). technology P j \<noteq> MANUAL"
    by (simp add: schedule_manual_fields(2))
  ultimately show ?thesis using m unfolding makespan_inv_def by blast
qed

lemma Max_set_fold: "Max (set (x # xs)) = fold max xs (x :: real)"
  by (rule Max.set_eq_fold)


section \<open>Termination and feasibility of the greedy constructor\<close>

text \<open>
  The body of the loop over \<open>S_remote\<close> at an operation with \<open>gamma = 0\<close>: the
  operation is scheduled on lane 0 and erased from the set.  \<open>remote_pass\<close> keeps
  the set apart from the state, so the rules below state an invariant on the
  state whose \<open>S_remote\<close> is what the iterator has left.
\<close>

definition remote_step :: "Problem \<Rightarrow> nat \<Rightarrow> greedy_state \<Rightarrow> greedy_state" where
  "remote_step P j st = (schedule_remote P j st)\<lparr> S_remote := remove1 j (S_remote st) \<rparr>"

lemma schedule_remote_S_remote:
  "(schedule_remote P j (st\<lparr> S_remote := xs \<rparr>))\<lparr> S_remote := ys \<rparr>
     = (schedule_remote P j st)\<lparr> S_remote := ys \<rparr>"
  by (simp add: schedule_remote_def)

lemma remote_pass_rule:
  assumes step: "\<And>s j. I s \<Longrightarrow> j \<in> set (S_remote s) \<Longrightarrow> gamma s j = 0 \<Longrightarrow> I (remote_step P j s)"
    and dist: "\<And>s. I s \<Longrightarrow> distinct (S_remote s)"
  shows "I (st\<lparr> S_remote := pre @ js \<rparr>) \<Longrightarrow>
         I ((snd (snd (remote_pass P js stop st)))\<lparr> S_remote := pre @ fst (remote_pass P js stop st) \<rparr>)"
proof (induction js arbitrary: pre st stop)
  case Nil
  then show ?case by simp
next
  case (Cons j js)
  let ?s = "st\<lparr> S_remote := pre @ j # js \<rparr>"
  show ?case
  proof (cases "gamma st j = 0")
    case True
    from dist [OF Cons.prems] have "j \<notin> set pre" by simp
    then have rm: "remove1 j (pre @ j # js) = pre @ js" by (simp add: remove1_append)
    from True have "gamma ?s j = 0" by simp
    from step [OF Cons.prems _ this] have "I (remote_step P j ?s)" by simp
    then have "I ((schedule_remote P j st)\<lparr> S_remote := pre @ js \<rparr>)"
      by (simp add: remote_step_def rm schedule_remote_S_remote)
    from Cons.IH [OF this, of False] True show ?thesis by simp
  next
    case False
    from Cons.prems have "I (st\<lparr> S_remote := (pre @ [j]) @ js \<rparr>)" by simp
    from Cons.IH [OF this, of stop] False show ?thesis
      by (simp add: split_beta)
  qed
qed

lemma remote_drain_rule:
  assumes step: "\<And>s j. I s \<Longrightarrow> j \<in> set (S_remote s) \<Longrightarrow> gamma s j = 0 \<Longrightarrow> I (remote_step P j s)"
    and dist: "\<And>s. I s \<Longrightarrow> distinct (S_remote s)"
    and init: "I st"
  shows "I (remote_drain P st)"
proof -
  have "P' = P \<Longrightarrow> I st \<Longrightarrow> I (remote_drain P' st)" for P'
  proof (induction P' st rule: remote_drain.induct)
    case (1 P' st)
    note P' = \<open>P' = P\<close>
    obtain kept stop st' where rp: "remote_pass P' (S_remote st) True st = (kept, stop, st')"
      by (cases "remote_pass P' (S_remote st) True st") auto
    from "1.prems"(2) have a: "I (st\<lparr> S_remote := [] @ S_remote st \<rparr>)" by simp
    have "I ((snd (snd (remote_pass P (S_remote st) True st)))
              \<lparr> S_remote := [] @ fst (remote_pass P (S_remote st) True st) \<rparr>)"
      using step dist a by (rule remote_pass_rule)
    with rp P' have I': "I (st'\<lparr> S_remote := kept \<rparr>)" by simp
    show ?case
    proof (cases stop)
      case True
      with rp have "remote_drain P' st = st'\<lparr> S_remote := kept \<rparr>"
        by (subst remote_drain.simps) simp
      with I' show ?thesis by simp
    next
      case False
      with rp have eq: "remote_drain P' st = remote_drain P' (st'\<lparr> S_remote := kept \<rparr>)"
        by (subst remote_drain.simps) simp
      from "1.IH" [OF rp [symmetric] refl False P' I'] show ?thesis
        unfolding eq .
    qed
  qed
  from this [OF refl init] show ?thesis .
qed

lemma remote_pass_stop:
  "fst (snd (remote_pass P js stop st)) \<Longrightarrow>
   stop \<and> remote_pass P js stop st = (js, True, st) \<and> (\<forall>j\<in>set js. gamma st j \<noteq> 0)"
proof (induction js arbitrary: stop st)
  case Nil
  then show ?case by simp
next
  case (Cons j js)
  show ?case
  proof (cases "gamma st j = 0")
    case True
    with Cons.prems have "fst (snd (remote_pass P js False (schedule_remote P j st)))" by simp
    from Cons.IH [OF this] show ?thesis by simp
  next
    case False
    with Cons.prems have "fst (snd (remote_pass P js stop st))" by (simp add: split_beta)
    from Cons.IH [OF this] have "stop" "remote_pass P js True st = (js, True, st)"
      "\<forall>j\<in>set js. gamma st j \<noteq> 0" by auto
    with False show ?thesis by simp
  qed
qed

lemma remote_drain_post:
  "\<forall>j\<in>set (S_remote (remote_drain P st)). gamma (remote_drain P st) j \<noteq> 0"
proof (induction P st rule: remote_drain.induct)
  case (1 P st)
  obtain kept stop st' where rp: "remote_pass P (S_remote st) True st = (kept, stop, st')"
    by (cases "remote_pass P (S_remote st) True st") auto
  show ?case
  proof (cases stop)
    case True
    with rp have "fst (snd (remote_pass P (S_remote st) True st))" by simp
    from remote_pass_stop [OF this] rp
    have k: "kept = S_remote st" "st' = st" and g: "\<forall>j\<in>set (S_remote st). gamma st j \<noteq> 0"
      by simp_all
    from True rp have "remote_drain P st = st'\<lparr> S_remote := kept \<rparr>"
      by (subst remote_drain.simps) simp
    with k have "remote_drain P st = st" by simp
    with g show ?thesis by simp
  next
    case False
    with rp have eq: "remote_drain P st = remote_drain P (st'\<lparr> S_remote := kept \<rparr>)"
      by (subst remote_drain.simps) simp
    from "1.IH" [OF rp [symmetric] refl False] show ?thesis unfolding eq .
  qed
qed

text \<open>
  The conditions on the instance: every technology is MANUAL or REMOTE; \<open>rank\<close>
  is a topological numbering of the precedence graph, which exists exactly when
  the graph is acyclic; \<open>p[0] = 0\<close> as the constructor leaves it, the processing
  times are non-negative, and \<open>c\<close> bounds all times with \<open>2 * n * c < DBL_MAX\<close>.

  The invariant of the outer loop of \<open>Greedy::solve\<close>: the lanes, \<open>S_manual\<close> and
  \<open>S_remote\<close> partition \<open>1..n\<close>; lane 0 and \<open>S_remote\<close> hold remote operations,
  the other lanes and \<open>S_manual\<close> manual ones; \<open>gamma[k]\<close> counts the predecessors
  of \<open>k\<close> not yet scheduled; every \<open>t[j]\<close> is at most \<open>2 * c\<close> times the number of
  scheduled operations; every \<open>phi[l]\<close> is 0 or an operation.
\<close>

definition known_technologies :: "Problem \<Rightarrow> bool" where
  "known_technologies P =
     list_all (\<lambda>i. technology P i = MANUAL \<or> technology P i = REMOTE) [1..<n_of P + 1]"

definition topological :: "Problem \<Rightarrow> (nat \<Rightarrow> nat) \<Rightarrow> bool" where
  "topological P rank =
     list_all (\<lambda>j. list_all (\<lambda>i. rank i < rank j) (predecessors P j)) [1..<n_of P + 1]"

definition times_bounded :: "Problem \<Rightarrow> real \<Rightarrow> bool" where
  "times_bounded P c =
     (0 \<le> c \<and> 2 * real (n_of P) * c < DBL_MAX \<and> p_of P 0 = 0 \<and>
      list_all (\<lambda>i. 0 \<le> p_of P i \<and> p_of P i \<le> c) [1..<n_of P + 1] \<and>
      list_all (\<lambda>i. list_all (\<lambda>j. list_all (\<lambda>l. s_of P i j l \<le> c) [1..<m_of P + 1])
                          [1..<n_of P + 1]) [0..<n_of P + 1])"

definition greedy_inv :: "Problem \<Rightarrow> real \<Rightarrow> greedy_state \<Rightarrow> bool" where
  "greedy_inv P c st =
     (length (g_schedule st) = m_of P + 1 \<and>
      mset (concat (g_schedule st)) + mset (S_manual st) + mset (S_remote st)
        = mset [1..<n_of P + 1] \<and>
      list_all (\<lambda>i. technology P i = REMOTE) (g_schedule st ! 0) \<and>
      (\<forall>l. 1 \<le> l \<and> l \<le> m_of P \<longrightarrow> list_all (\<lambda>i. technology P i = MANUAL) (g_schedule st ! l)) \<and>
      list_all (\<lambda>i. technology P i = MANUAL) (S_manual st) \<and>
      list_all (\<lambda>i. technology P i = REMOTE) (S_remote st) \<and>
      (\<forall>k. 1 \<le> k \<and> k \<le> n_of P \<longrightarrow>
           gamma st k = int (card (set (predecessors P k) - set (concat (g_schedule st))))) \<and>
      (\<forall>j. g_t st j \<le> 2 * real (length (concat (g_schedule st))) * c) \<and>
      (\<forall>l. phi st l \<le> n_of P))"

lemma times_boundedD:
  assumes "times_bounded P c"
  shows "0 \<le> c" and "2 * real (n_of P) * c < DBL_MAX"
    and "i \<le> n_of P \<Longrightarrow> 0 \<le> p_of P i \<and> p_of P i \<le> c"
    and "i \<le> n_of P \<Longrightarrow> 1 \<le> j \<Longrightarrow> j \<le> n_of P \<Longrightarrow> 1 \<le> l \<Longrightarrow> l \<le> m_of P \<Longrightarrow> s_of P i j l \<le> c"
proof -
  from assms show c: "0 \<le> c" and "2 * real (n_of P) * c < DBL_MAX"
    by (simp_all add: times_bounded_def)
  from assms have p0: "p_of P 0 = 0"
    and p: "\<forall>i\<in>set [1..<n_of P + 1]. 0 \<le> p_of P i \<and> p_of P i \<le> c"
    and s: "\<forall>i\<in>set [0..<n_of P + 1]. \<forall>j\<in>set [1..<n_of P + 1]. \<forall>l\<in>set [1..<m_of P + 1].
              s_of P i j l \<le> c"
    unfolding times_bounded_def list_all_iff by blast+
  show "0 \<le> p_of P i \<and> p_of P i \<le> c" if "i \<le> n_of P"
  proof (cases "i = 0")
    case True
    with p0 c show ?thesis by simp
  next
    case False
    with that have "i \<in> set [1..<n_of P + 1]" by auto
    with p show ?thesis by blast
  qed
  assume "i \<le> n_of P" "1 \<le> j" "j \<le> n_of P" "1 \<le> l" "l \<le> m_of P"
  then have "i \<in> set [0..<n_of P + 1]" "j \<in> set [1..<n_of P + 1]" "l \<in> set [1..<m_of P + 1]"
    by auto
  with s show "s_of P i j l \<le> c" by blast
qed

lemma topologicalD:
  assumes "topological P rank" and "1 \<le> j" and "j \<le> n_of P" and "i \<in> set (predecessors P j)"
  shows "rank i < rank j"
proof -
  from assms(2,3) have "j \<in> set [1..<n_of P + 1]" by auto
  with assms(1,4) show ?thesis unfolding topological_def list_all_iff by blast
qed

lemma known_technologiesD:
  assumes "known_technologies P" and "1 \<le> i" and "i \<le> n_of P"
  shows "technology P i = MANUAL \<or> technology P i = REMOTE"
proof -
  from assms(2,3) have "i \<in> set [1..<n_of P + 1]" by auto
  with assms(1) show ?thesis unfolding known_technologies_def list_all_iff by blast
qed

lemma mset_concat_append_lane:
  assumes "l < length sch"
  shows "mset (concat (sch[l := sch ! l @ [j]])) = add_mset j (mset (concat sch))"
proof -
  from mset_concat_update [OF assms, of "sch ! l @ [j]"]
  have "mset (concat (sch[l := sch ! l @ [j]])) + mset (sch ! l)
      = add_mset j (mset (concat sch)) + mset (sch ! l)" by simp
  then show ?thesis by (simp only: add_right_cancel)
qed

lemma concat_append_lane:
  assumes "l < length sch"
  shows "set (concat (sch[l := sch ! l @ [j]])) = insert j (set (concat sch))"
    and "length (concat (sch[l := sch ! l @ [j]])) = Suc (length (concat sch))"
proof -
  note m = mset_concat_append_lane [OF assms, of j]
  from arg_cong [OF m, of set_mset] show "set (concat (sch[l := sch ! l @ [j]])) = insert j (set (concat sch))"
    by simp
  from arg_cong [OF m, of size] show "length (concat (sch[l := sch ! l @ [j]])) = Suc (length (concat sch))"
    by simp
qed

lemma gamma_step:
  assumes wfp: "wf_problem P" and j: "1 \<le> j" "j \<le> n_of P" and jR: "j \<notin> R"
    and g: "\<forall>k. 1 \<le> k \<and> k \<le> n_of P \<longrightarrow> g k = int (card (set (predecessors P k) - R))"
  shows "\<forall>k. 1 \<le> k \<and> k \<le> n_of P \<longrightarrow>
           update_pendings P j g k = int (card (set (predecessors P k) - insert j R))"
proof (intro allI impI)
  fix k assume k: "1 \<le> k \<and> k \<le> n_of P"
  then have k1: "1 \<le> k" and k2: "k \<le> n_of P" by simp_all
  have iff: "k \<in> set (successors P j) \<longleftrightarrow> j \<in> set (predecessors P k)"
    using wf_problemD(4) [OF wfp j, of k] wf_problemD(3) [OF wfp k1 k2, of j] by blast
  from update_pendings_apply [OF wf_problemD(2) [OF wfp j], of g k]
  have "update_pendings P j g k = g k - (if j \<in> set (predecessors P k) then 1 else 0)"
    by (simp only: iff)
  also from g k have "g k = int (card (set (predecessors P k) - R))" by blast
  also have "int (card (set (predecessors P k) - R)) - (if j \<in> set (predecessors P k) then 1 else 0)
      = int (card (set (predecessors P k) - insert j R))"
    using card_Diff_insert_int [of "set (predecessors P k)" j R] jR by simp
  finally show "update_pendings P j g k = int (card (set (predecessors P k) - insert j R))" .
qed

lemma wait_scheduled_self:
  assumes "j \<notin> set (predecessors P j)"
  shows "wait_scheduled P j tv j
       = fold (\<lambda>i v. max v (tv i + p_of P i)) (predecessors P j) (tv j)"
proof -
  have "j \<notin> set ps \<Longrightarrow>
        fold (\<lambda>i tv'. tv'(j := max (tv' j) (tv' i + p_of P i))) ps tv
          = tv(j := fold (\<lambda>i v. max v (tv i + p_of P i)) ps (tv j))" for ps
  proof (induction ps arbitrary: tv)
    case Nil
    then show ?case by simp
  next
    case (Cons a ps)
    then have a: "a \<noteq> j" and ps: "j \<notin> set ps" by auto
    let ?F = "\<lambda>i tv'. tv'(j := max (tv' j) (tv' i + p_of P i))"
    let ?tv = "tv(j := max (tv j) (tv a + p_of P a))"
    have c: "fold (\<lambda>i v. max v (?tv i + p_of P i)) ps v = fold (\<lambda>i v. max v (tv i + p_of P i)) ps v" for v
      using ps by (intro fold_cong) auto
    have tvj: "?tv j = max (tv j) (tv a + p_of P a)" by simp
    have "fold ?F (a # ps) tv = fold ?F ps ?tv" by simp
    also have "\<dots> = ?tv(j := fold (\<lambda>i v. max v (?tv i + p_of P i)) ps (?tv j))"
      by (rule Cons.IH [OF ps])
    also have "\<dots> = tv(j := fold (\<lambda>i v. max v (tv i + p_of P i)) ps (max (tv j) (tv a + p_of P a)))"
      unfolding c tvj by (rule fun_upd_upd)
    also have "fold (\<lambda>i v. max v (tv i + p_of P i)) ps (max (tv j) (tv a + p_of P a))
        = fold (\<lambda>i v. max v (tv i + p_of P i)) (a # ps) (tv j)" by simp
    finally show ?case .
  qed
  from this [OF assms] show ?thesis by (simp add: wait_scheduled_def)
qed

lemma fold_max_bound:
  fixes v :: real
  assumes "v \<le> b" and "\<forall>i\<in>set ps. f i \<le> b"
  shows "fold (\<lambda>i v. max v (f i)) ps v \<le> b"
  using assms by (induction ps arbitrary: v) simp_all

lemma remote_step_fields:
  "S_manual (remote_step P j st) = S_manual st"
  "S_remote (remote_step P j st) = remove1 j (S_remote st)"
  "g_makespan (remote_step P j st) = g_makespan st"
  "g_schedule (remote_step P j st) = (g_schedule st)[0 := g_schedule st ! 0 @ [j]]"
  "phi (remote_step P j st) = phi st"
  "gamma (remote_step P j st) = update_pendings P j (gamma st)"
  "g_t (remote_step P j st) = wait_scheduled P j ((g_t st)(j := 0))"
  by (simp_all add: remote_step_def schedule_remote_def)

lemma schedule_manual_g_t:
  "g_t (schedule_manual P j l st) = wait_scheduled P j ((g_t st)(j := criterion_of P st j l))"
  by (simp add: schedule_manual_def Let_def)

lemma greedy_invD:
  assumes "greedy_inv P c st"
  shows "length (g_schedule st) = m_of P + 1"
    and "mset (concat (g_schedule st)) + mset (S_manual st) + mset (S_remote st)
           = mset [1..<n_of P + 1]"
    and "list_all (\<lambda>i. technology P i = REMOTE) (g_schedule st ! 0)"
    and "\<And>l. 1 \<le> l \<Longrightarrow> l \<le> m_of P \<Longrightarrow> list_all (\<lambda>i. technology P i = MANUAL) (g_schedule st ! l)"
    and "list_all (\<lambda>i. technology P i = MANUAL) (S_manual st)"
    and "list_all (\<lambda>i. technology P i = REMOTE) (S_remote st)"
    and "\<forall>k. 1 \<le> k \<and> k \<le> n_of P \<longrightarrow>
           gamma st k = int (card (set (predecessors P k) - set (concat (g_schedule st))))"
    and "\<forall>j. g_t st j \<le> 2 * real (length (concat (g_schedule st))) * c"
    and "\<And>l. phi st l \<le> n_of P"
  using assms unfolding greedy_inv_def by blast+

lemma greedy_inv_partition:
  assumes "greedy_inv P c st"
  shows "distinct (concat (g_schedule st) @ S_manual st @ S_remote st)"
    and "set (concat (g_schedule st)) \<union> set (S_manual st) \<union> set (S_remote st) = {1..n_of P}"
    and "length (concat (g_schedule st)) + length (S_manual st) + length (S_remote st) = n_of P"
proof -
  from greedy_invD(2) [OF assms]
  have m: "mset (concat (g_schedule st) @ S_manual st @ S_remote st) = mset [1..<n_of P + 1]"
    by (simp only: mset_append add.assoc)
  from mset_eq_imp_distinct_iff [OF m] show "distinct (concat (g_schedule st) @ S_manual st @ S_remote st)"
    by simp
  have r: "set [1..<n_of P + 1] = {1..n_of P}" by auto
  from mset_eq_setD [OF m]
  have "set (concat (g_schedule st) @ S_manual st @ S_remote st) = {1..n_of P}" unfolding r .
  then show "set (concat (g_schedule st)) \<union> set (S_manual st) \<union> set (S_remote st) = {1..n_of P}"
    by (simp only: set_append Un_assoc)
  from mset_eq_length [OF m]
  show "length (concat (g_schedule st)) + length (S_manual st) + length (S_remote st) = n_of P"
    by (simp only: length_append length_upt add.assoc add_diff_cancel_right')
qed

lemma greedy_inv_unscheduled:
  assumes inv: "greedy_inv P c st" and j: "j \<in> set (S_manual st) \<union> set (S_remote st)"
  shows "1 \<le> j" and "j \<le> n_of P" and "j \<notin> set (concat (g_schedule st))"
    and "length (concat (g_schedule st)) < n_of P"
proof -
  from greedy_inv_partition(2) [OF inv] j have "j \<in> {1..n_of P}" by blast
  then show "1 \<le> j" and "j \<le> n_of P" by simp_all
  from greedy_inv_partition(1) [OF inv] j show "j \<notin> set (concat (g_schedule st))" by auto
  from j have "0 < length (S_manual st) \<or> 0 < length (S_remote st)"
    by (auto dest: length_pos_if_in_set)
  then have "0 < length (S_manual st) + length (S_remote st)" by arith
  with greedy_inv_partition(3) [OF inv] show "length (concat (g_schedule st)) < n_of P" by arith
qed

lemma wait_scheduled_bound:
  assumes self: "j \<notin> set (predecessors P j)"
    and v: "v \<le> b" and ps: "\<forall>i\<in>set (predecessors P j). tv i + p_of P i \<le> b"
  shows "wait_scheduled P j (tv(j := v)) j \<le> b"
proof -
  have "fold (\<lambda>i w. max w ((tv(j := v)) i + p_of P i)) (predecessors P j) ((tv(j := v)) j) \<le> b"
  proof (rule fold_max_bound)
    show "(tv(j := v)) j \<le> b" using v by simp
    show "\<forall>i\<in>set (predecessors P j). (tv(j := v)) i + p_of P i \<le> b"
    proof
      fix i assume i: "i \<in> set (predecessors P j)"
      with self have "i \<noteq> j" by auto
      with ps i show "(tv(j := v)) i + p_of P i \<le> b" by simp
    qed
  qed
  then show ?thesis by (simp only: wait_scheduled_self [OF self])
qed

lemma time_step:
  assumes wfp: "wf_problem P" and top: "topological P rank" and tb: "times_bounded P c"
    and j: "1 \<le> j" "j \<le> n_of P"
    and t: "\<forall>k. tv k \<le> 2 * real K * c"
    and v: "v \<le> 2 * real (Suc K) * c"
  shows "\<forall>k. wait_scheduled P j (tv(j := v)) k \<le> 2 * real (Suc K) * c"
proof
  fix k
  note c = times_boundedD(1) [OF tb]
  have mono: "2 * real K * c \<le> 2 * real (Suc K) * c" using c by (simp add: algebra_simps)
  have self: "j \<notin> set (predecessors P j)"
    using topologicalD [OF top j, of j] by auto
  show "wait_scheduled P j (tv(j := v)) k \<le> 2 * real (Suc K) * c"
  proof (cases "k = j")
    case True
    have "\<forall>i\<in>set (predecessors P j). tv i + p_of P i \<le> 2 * real (Suc K) * c"
    proof
      fix i assume "i \<in> set (predecessors P j)"
      from wf_problemD(3) [OF wfp j this] have "i \<le> n_of P" by simp
      from times_boundedD(3) [OF tb this] have "p_of P i \<le> c" by simp
      moreover from t have "tv i \<le> 2 * real K * c" by blast
      ultimately show "tv i + p_of P i \<le> 2 * real (Suc K) * c" using c by (simp add: algebra_simps)
    qed
    from wait_scheduled_bound [OF self v this] True show ?thesis by simp
  next
    case False
    from wait_scheduled_other [OF False, of P "tv(j := v)"] False
    have "wait_scheduled P j (tv(j := v)) k = tv k" by simp
    with t mono show ?thesis by (metis order_trans)
  qed
qed

lemma greedy_invI:
  assumes "length (g_schedule st) = m_of P + 1"
    and "mset (concat (g_schedule st)) + mset (S_manual st) + mset (S_remote st)
           = mset [1..<n_of P + 1]"
    and "list_all (\<lambda>i. technology P i = REMOTE) (g_schedule st ! 0)"
    and "\<And>l. 1 \<le> l \<Longrightarrow> l \<le> m_of P \<Longrightarrow> list_all (\<lambda>i. technology P i = MANUAL) (g_schedule st ! l)"
    and "list_all (\<lambda>i. technology P i = MANUAL) (S_manual st)"
    and "list_all (\<lambda>i. technology P i = REMOTE) (S_remote st)"
    and "\<forall>k. 1 \<le> k \<and> k \<le> n_of P \<longrightarrow>
           gamma st k = int (card (set (predecessors P k) - set (concat (g_schedule st))))"
    and "\<forall>j. g_t st j \<le> 2 * real (length (concat (g_schedule st))) * c"
    and "\<And>l. phi st l \<le> n_of P"
  shows "greedy_inv P c st"
  using assms unfolding greedy_inv_def by blast

lemma list_all_subset: "list_all Q xs \<Longrightarrow> set ys \<subseteq> set xs \<Longrightarrow> list_all Q ys"
  unfolding list_all_iff by blast

lemma greedy_inv_remote_step:
  assumes wfp: "wf_problem P" and top: "topological P rank" and tb: "times_bounded P c"
    and inv: "greedy_inv P c st" and j: "j \<in> set (S_remote st)"
  shows "greedy_inv P c (remote_step P j st)"
proof (rule greedy_invI)
  let ?sch = "g_schedule st"
  let ?st = "remote_step P j st"
  note f = remote_step_fields [of P j st]
  from j have ju: "j \<in> set (S_manual st) \<union> set (S_remote st)" by simp
  note u = greedy_inv_unscheduled [OF inv ju]
  from greedy_invD(1) [OF inv] have l0: "0 < length ?sch" by simp
  note ca = concat_append_lane [OF l0, of j] mset_concat_append_lane [OF l0, of j]
  from greedy_invD(6) [OF inv] j have jr: "technology P j = REMOTE" by (simp add: list_all_iff)
  show "length (g_schedule ?st) = m_of P + 1"
    unfolding f using greedy_invD(1) [OF inv] by simp
  from j have "add_mset j (mset (remove1 j (S_remote st))) = mset (S_remote st)" by simp
  with greedy_invD(2) [OF inv]
  show "mset (concat (g_schedule ?st)) + mset (S_manual ?st) + mset (S_remote ?st)
          = mset [1..<n_of P + 1]"
    unfolding f ca by (metis add_mset_add_single union_mset_add_mset_left union_mset_add_mset_right)
  from greedy_invD(3) [OF inv] jr l0
  show "list_all (\<lambda>i. technology P i = REMOTE) (g_schedule ?st ! 0)"
    unfolding f by simp
  show "list_all (\<lambda>i. technology P i = MANUAL) (g_schedule ?st ! l)" if "1 \<le> l" "l \<le> m_of P" for l
    unfolding f using greedy_invD(4) [OF inv that] that by simp
  from greedy_invD(5) [OF inv] show "list_all (\<lambda>i. technology P i = MANUAL) (S_manual ?st)"
    unfolding f .
  from greedy_invD(6) [OF inv] show "list_all (\<lambda>i. technology P i = REMOTE) (S_remote ?st)"
    unfolding f by (rule list_all_subset) (rule set_remove1_subset)
  from gamma_step [OF wfp u(1,2,3) greedy_invD(7) [OF inv]]
  show "\<forall>k. 1 \<le> k \<and> k \<le> n_of P \<longrightarrow>
          gamma ?st k = int (card (set (predecessors P k) - set (concat (g_schedule ?st))))"
    unfolding f ca .
  have "0 \<le> 2 * real (Suc (length (concat ?sch))) * c"
    using times_boundedD(1) [OF tb] by simp
  from time_step [OF wfp top tb u(1,2) greedy_invD(8) [OF inv] this]
  show "\<forall>k. g_t ?st k \<le> 2 * real (length (concat (g_schedule ?st))) * c"
    unfolding f ca .
  show "phi ?st l \<le> n_of P" for l
    unfolding f by (rule greedy_invD(9) [OF inv])
qed

lemma greedy_inv_manual_step:
  assumes wfp: "wf_problem P" and top: "topological P rank" and tb: "times_bounded P c"
    and inv: "greedy_inv P c st" and j: "j \<in> set (S_manual st)"
    and l: "1 \<le> l" "l \<le> m_of P"
  shows "greedy_inv P c (schedule_manual P j l st)"
proof (rule greedy_invI)
  let ?sch = "g_schedule st"
  let ?st = "schedule_manual P j l st"
  note f = schedule_manual_fields(1,2,4,5,6) [of P j l st] schedule_manual_g_t [of P j l st]
  from j have ju: "j \<in> set (S_manual st) \<union> set (S_remote st)" by simp
  note u = greedy_inv_unscheduled [OF inv ju]
  from greedy_invD(1) [OF inv] l have ll: "l < length ?sch" by simp
  note ca = concat_append_lane [OF ll, of j] mset_concat_append_lane [OF ll, of j]
  from greedy_invD(5) [OF inv] j have jm: "technology P j = MANUAL" by (simp add: list_all_iff)
  from greedy_inv_partition(1) [OF inv] have d: "distinct (S_manual st)" by simp
  then have rm: "removeAll j (S_manual st) = remove1 j (S_manual st)"
    by (rule distinct_remove1_removeAll [symmetric])
  show "length (g_schedule ?st) = m_of P + 1"
    unfolding f using greedy_invD(1) [OF inv] by simp
  from j have "add_mset j (mset (remove1 j (S_manual st))) = mset (S_manual st)" by simp
  with greedy_invD(2) [OF inv]
  show "mset (concat (g_schedule ?st)) + mset (S_manual ?st) + mset (S_remote ?st)
          = mset [1..<n_of P + 1]"
    unfolding f ca rm by (metis add_mset_add_single union_mset_add_mset_left union_mset_add_mset_right)
  from greedy_invD(3) [OF inv] l ll
  show "list_all (\<lambda>i. technology P i = REMOTE) (g_schedule ?st ! 0)"
    unfolding f by simp
  show "list_all (\<lambda>i. technology P i = MANUAL) (g_schedule ?st ! l')" if "1 \<le> l'" "l' \<le> m_of P" for l'
    unfolding f using greedy_invD(4) [OF inv that] greedy_invD(4) [OF inv l] jm ll
    by (cases "l' = l") simp_all
  from greedy_invD(5) [OF inv] show "list_all (\<lambda>i. technology P i = MANUAL) (S_manual ?st)"
    unfolding f rm by (rule list_all_subset) (rule set_remove1_subset)
  from greedy_invD(6) [OF inv] show "list_all (\<lambda>i. technology P i = REMOTE) (S_remote ?st)"
    unfolding f .
  from gamma_step [OF wfp u(1,2,3) greedy_invD(7) [OF inv]]
  show "\<forall>k. 1 \<le> k \<and> k \<le> n_of P \<longrightarrow>
          gamma ?st k = int (card (set (predecessors P k) - set (concat (g_schedule ?st))))"
    unfolding f ca .
  have "criterion_of P st j l \<le> 2 * real (Suc (length (concat ?sch))) * c"
  proof -
    note ph = greedy_invD(9) [OF inv, of l]
    from greedy_invD(8) [OF inv] have "g_t st (phi st l) \<le> 2 * real (length (concat ?sch)) * c"
      by blast
    moreover from times_boundedD(3) [OF tb ph] have "p_of P (phi st l) \<le> c" by simp
    moreover from times_boundedD(4) [OF tb ph u(1,2) l] have "s_of P (phi st l) j l \<le> c" .
    ultimately show ?thesis by (simp add: criterion_of_def algebra_simps)
  qed
  from time_step [OF wfp top tb u(1,2) greedy_invD(8) [OF inv] this]
  show "\<forall>k. g_t ?st k \<le> 2 * real (length (concat (g_schedule ?st))) * c"
    unfolding f ca .
  show "phi ?st l' \<le> n_of P" for l'
    unfolding f using greedy_invD(9) [OF inv, of l'] u(2) by simp
qed

lemma mset_filter_split:
  "\<forall>x\<in>set xs. (A x \<or> B x) \<and> \<not> (A x \<and> B x) \<Longrightarrow>
   mset (filter A xs) + mset (filter B xs) = mset xs"
  by (induction xs) auto

lemma greedy_inv_init:
  assumes wfp: "wf_problem P" and kt: "known_technologies P" and tb: "times_bounded P c"
  shows "greedy_inv P c (greedy_init P)"
proof (rule greedy_invI)
  note f = greedy_init_fields [of P]
  have e: "concat (g_schedule (greedy_init P)) = []"
    unfolding f create_empty_schedule_def by simp
  show "length (g_schedule (greedy_init P)) = m_of P + 1"
    unfolding f create_empty_schedule_def by simp
  have "\<forall>x\<in>set [1..<n_of P + 1]. (technology P x = MANUAL \<or> technology P x = REMOTE) \<and>
          \<not> (technology P x = MANUAL \<and> technology P x = REMOTE)"
    using kt unfolding known_technologies_def list_all_iff by auto
  from mset_filter_split [OF this]
  show "mset (concat (g_schedule (greedy_init P))) + mset (S_manual (greedy_init P))
          + mset (S_remote (greedy_init P)) = mset [1..<n_of P + 1]"
    unfolding e f(1,2) manual_ops_def remote_ops_def by simp
  show "list_all (\<lambda>i. technology P i = REMOTE) (g_schedule (greedy_init P) ! 0)"
    unfolding f create_empty_schedule_def by simp
  show "list_all (\<lambda>i. technology P i = MANUAL) (g_schedule (greedy_init P) ! l)"
    if "1 \<le> l" "l \<le> m_of P" for l
    unfolding f create_empty_schedule_def using that by simp
  show "list_all (\<lambda>i. technology P i = MANUAL) (S_manual (greedy_init P))"
    unfolding f manual_ops_def list_all_iff by simp
  show "list_all (\<lambda>i. technology P i = REMOTE) (S_remote (greedy_init P))"
    unfolding f remote_ops_def list_all_iff by simp
  show "\<forall>k. 1 \<le> k \<and> k \<le> n_of P \<longrightarrow>
          gamma (greedy_init P) k
            = int (card (set (predecessors P k) - set (concat (g_schedule (greedy_init P)))))"
  proof (intro allI impI)
    fix k assume k: "1 \<le> k \<and> k \<le> n_of P"
    then have "distinct (predecessors P k)" using wf_problemD(1) [OF wfp] by blast
    from distinct_card [OF this] k
    show "gamma (greedy_init P) k
            = int (card (set (predecessors P k) - set (concat (g_schedule (greedy_init P)))))"
      unfolding e f(7) by simp
  qed
  show "\<forall>j. g_t (greedy_init P) j \<le> 2 * real (length (concat (g_schedule (greedy_init P)))) * c"
    unfolding e f(5) by simp
  show "phi (greedy_init P) l \<le> n_of P" for l
    unfolding f by simp
qed

lemma ready_exists:
  assumes wfp: "wf_problem P" and top: "topological P rank" and inv: "greedy_inv P c st"
    and ne: "j0 \<in> set (S_manual st) \<union> set (S_remote st)"
  shows "\<exists>j\<in>set (S_manual st) \<union> set (S_remote st). gamma st j = 0"
proof -
  let ?U = "set (S_manual st) \<union> set (S_remote st)"
  from ex_has_least_nat [of "\<lambda>j. j \<in> ?U" j0 rank] ne
  obtain j where j: "j \<in> ?U" and least: "\<forall>y. y \<in> ?U \<longrightarrow> rank j \<le> rank y" by blast
  note u = greedy_inv_unscheduled [OF inv j]
  have "set (predecessors P j) - set (concat (g_schedule st)) = {}"
  proof -
    have "i \<in> set (concat (g_schedule st))" if i: "i \<in> set (predecessors P j)" for i
    proof -
      from topologicalD [OF top u(1,2) i] least have "i \<notin> ?U" by force
      moreover from wf_problemD(3) [OF wfp u(1,2) i] have "i \<in> {1..n_of P}" by simp
      ultimately show ?thesis using greedy_inv_partition(2) [OF inv] by blast
    qed
    then show ?thesis by blast
  qed
  with greedy_invD(7) [OF inv] u(1,2) have "gamma st j = 0" by simp
  with j show ?thesis by blast
qed

lemma choose_fold_some:
  "jl \<noteq> None \<or> (\<exists>x\<in>set xs. c (fst x) (snd x) < v) \<Longrightarrow>
   snd (fold (\<lambda>(j_trial, l_trial) (criterion, jl).
             if c j_trial l_trial < criterion
             then (c j_trial l_trial, Some (j_trial, l_trial))
             else (criterion, jl)) xs (v :: real, jl :: (nat \<times> nat) option)) \<noteq> None"
proof (induction xs arbitrary: v jl)
  case Nil
  then show ?case by simp
next
  case (Cons y ys)
  obtain a b where y: "y = (a, b)" by (cases y)
  show ?case
  proof (cases "c a b < v")
    case True
    from Cons.IH [of "Some (a, b)" "c a b"] True show ?thesis unfolding y by simp
  next
    case False
    with Cons.prems have "jl \<noteq> None \<or> (\<exists>x\<in>set ys. c (fst x) (snd x) < v)"
      unfolding y by auto
    from Cons.IH [OF this] False show ?thesis unfolding y by simp
  qed
qed

lemma candidates_intro:
  assumes "j \<in> set (S_manual st)" and "gamma st j = 0" and "1 \<le> l" and "l \<le> m_of P"
  shows "(j, l) \<in> set (candidates P st)"
proof -
  from assms(3,4) have "l \<in> set [1..<m_of P + 1]" by auto
  with assms(1,2) show ?thesis unfolding candidates_def by auto
qed

lemma choose_pair_some:
  assumes "(j, l) \<in> set (candidates P st)" and "criterion_of P st j l < DBL_MAX"
  shows "\<exists>j' l'. snd (choose_pair P st) = Some (j', l')"
proof -
  from assms have "\<exists>x\<in>set (candidates P st). criterion_of P st (fst x) (snd x) < DBL_MAX"
    by force
  then have "snd (choose_pair P st) \<noteq> None"
    unfolding choose_pair_def by (intro choose_fold_some) simp
  then show ?thesis by (cases "snd (choose_pair P st)") auto
qed

definition unscheduled :: "greedy_state \<Rightarrow> nat" where
  "unscheduled st = length (S_manual st) + length (S_remote st)"

lemma drain_inv:
  assumes wfp: "wf_problem P" and top: "topological P rank" and tb: "times_bounded P c"
    and inv: "greedy_inv P c st"
  shows "greedy_inv P c (remote_drain P st)"
    and "unscheduled (remote_drain P st) \<le> unscheduled st"
proof -
  define I where "I = (\<lambda>s. greedy_inv P c s \<and> unscheduled s \<le> unscheduled st)"
  have "I (remote_drain P st)"
  proof (rule remote_drain_rule)
    show "I st" using inv by (simp add: I_def)
  next
    fix s assume "I s"
    then have "greedy_inv P c s" by (simp add: I_def)
    from greedy_inv_partition(1) [OF this] show "distinct (S_remote s)" by simp
  next
    fix s j assume s: "I s" and j: "j \<in> set (S_remote s)"
    from s have i: "greedy_inv P c s" and u: "unscheduled s \<le> unscheduled st"
      by (simp_all add: I_def)
    have "length (remove1 j (S_remote s)) \<le> length (S_remote s)"
      by (simp add: length_remove1)
    with u have "unscheduled (remote_step P j s) \<le> unscheduled st"
      unfolding unscheduled_def remote_step_fields by simp
    with greedy_inv_remote_step [OF wfp top tb i j] show "I (remote_step P j s)"
      by (simp add: I_def)
  qed
  then show "greedy_inv P c (remote_drain P st)"
    and "unscheduled (remote_drain P st) \<le> unscheduled st" by (simp_all add: I_def)
qed

lemma criterion_bound:
  assumes tb: "times_bounded P c" and inv: "greedy_inv P c st"
    and j: "j \<in> set (S_manual st)" and l: "1 \<le> l" "l \<le> m_of P"
  shows "criterion_of P st j l < DBL_MAX"
proof -
  from j have ju: "j \<in> set (S_manual st) \<union> set (S_remote st)" by simp
  note u = greedy_inv_unscheduled [OF inv ju]
  note ph = greedy_invD(9) [OF inv, of l]
  note c = times_boundedD(1) [OF tb]
  let ?K = "length (concat (g_schedule st))"
  from greedy_invD(8) [OF inv] have "g_t st (phi st l) \<le> 2 * real ?K * c" by blast
  moreover from times_boundedD(3) [OF tb ph] have "p_of P (phi st l) \<le> c" by simp
  moreover from times_boundedD(4) [OF tb ph u(1,2) l] have "s_of P (phi st l) j l \<le> c" .
  ultimately have "criterion_of P st j l \<le> 2 * real (Suc ?K) * c"
    by (simp add: criterion_of_def algebra_simps)
  also from u(4) have "real (Suc ?K) \<le> real (n_of P)" by simp
  then have "2 * real (Suc ?K) * c \<le> 2 * real (n_of P) * c"
    using c by (simp add: mult_right_mono)
  also note times_boundedD(2) [OF tb]
  finally show ?thesis .
qed

lemma greedy_loop_terminates:
  assumes wfp: "wf_problem P" and top: "topological P rank" and tb: "times_bounded P c"
    and teams: "manual_ops P = [] \<or> 1 \<le> m_of P"
  shows "greedy_inv P c st \<Longrightarrow>
         \<exists>st'. greedy_loop P st = Some (Inr st') \<and> greedy_inv P c st' \<and>
               S_manual st' = [] \<and> S_remote st' = []"
proof (induction "unscheduled st" arbitrary: st rule: less_induct)
  case less
  note inv = less.prems
  let ?s = "remote_drain P st"
  show ?case
  proof (cases "unscheduled st = 0")
    case True
    then have "greedy_loop P st = Some (Inr st)"
      by (subst greedy_loop.simps) (simp add: unscheduled_def)
    with inv True show ?thesis by (simp add: unscheduled_def)
  next
    case False
    then have pos: "length (S_manual st) + length (S_remote st) > 0"
      by (simp add: unscheduled_def)
    note sinv = drain_inv [OF wfp top tb inv]
    note post = remote_drain_post [of P st]
    show ?thesis
    proof (cases "S_manual ?s = []")
      case True
      have "S_remote ?s = []"
      proof (rule ccontr)
        assume "S_remote ?s \<noteq> []"
        then obtain j0 where "j0 \<in> set (S_remote ?s)" by (cases "S_remote ?s") auto
        then have "j0 \<in> set (S_manual ?s) \<union> set (S_remote ?s)" by simp
        from ready_exists [OF wfp top sinv(1) this] True post show False by auto
      qed
      with True have "greedy_loop P ?s = Some (Inr ?s)"
        by (subst greedy_loop.simps) simp
      moreover from pos True have "greedy_loop P st = greedy_loop P ?s"
        by (subst greedy_loop.simps) simp
      ultimately show ?thesis using sinv(1) True \<open>S_remote ?s = []\<close> by simp
    next
      case ne: False
      then obtain j0 where "j0 \<in> set (S_manual ?s)" by (cases "S_manual ?s") auto
      then have "j0 \<in> set (S_manual ?s) \<union> set (S_remote ?s)" by simp
      from ready_exists [OF wfp top sinv(1) this] post
      obtain j where j: "j \<in> set (S_manual ?s)" and g: "gamma ?s j = 0" by auto
      from j have ju: "j \<in> set (S_manual ?s) \<union> set (S_remote ?s)" by simp
      note u = greedy_inv_unscheduled [OF sinv(1) ju]
      from greedy_invD(5) [OF sinv(1)] j have "technology P j = MANUAL" by (simp add: list_all_iff)
      moreover from u(1,2) have "j \<in> set [1..<n_of P + 1]" by auto
      ultimately have "j \<in> set (manual_ops P)" unfolding manual_ops_def
        by (simp only: set_filter mem_Collect_eq simp_thms)
      with teams have m: "1 \<le> m_of P" by auto
      from candidates_intro [OF j g order_refl m]
        criterion_bound [OF tb sinv(1) j order_refl m]
      have "\<exists>j' l'. snd (choose_pair P ?s) = Some (j', l')" by (rule choose_pair_some)
      then obtain j' l' where ch: "snd (choose_pair P ?s) = Some (j', l')" by blast
      note mem = choose_pair_member [OF ch]
      let ?st2 = "schedule_manual P j' l' ?s"
      from greedy_inv_manual_step [OF wfp top tb sinv(1) mem(1,3,4)]
      have inv2: "greedy_inv P c ?st2" .
      from greedy_inv_partition(1) [OF sinv(1)] have "distinct (S_manual ?s)" by simp
      then have "removeAll j' (S_manual ?s) = remove1 j' (S_manual ?s)"
        by (rule distinct_remove1_removeAll [symmetric])
      moreover from mem(1) have "0 < length (S_manual ?s)" by (rule length_pos_if_in_set)
      ultimately have "length (removeAll j' (S_manual ?s)) < length (S_manual ?s)"
        using mem(1) by (simp add: length_remove1)
      then have "unscheduled ?st2 < unscheduled ?s"
        unfolding unscheduled_def schedule_manual_fields by simp
      with sinv(2) have "unscheduled ?st2 < unscheduled st" by simp
      from less.hyps [OF this inv2]
      obtain st' where r: "greedy_loop P ?st2 = Some (Inr st')" "greedy_inv P c st'"
        "S_manual st' = []" "S_remote st' = []" by blast
      from pos ne ch have "greedy_loop P st = greedy_loop P ?st2"
        by (subst greedy_loop.simps) simp
      with r show ?thesis by simp
    qed
  qed
qed

lemma fold_count_step_range:
  "list_all (\<lambda>i. 1 \<le> i \<and> i \<le> n_of P) xs \<Longrightarrow>
   fold (count_step P) xs (Some a) = Some (\<lambda>i. a i + count_list xs i)"
proof (induction xs arbitrary: a)
  case Nil
  then show ?case by simp
next
  case (Cons x xs)
  then have x: "\<not> (x < 1 \<or> n_of P < x)" and xs: "list_all (\<lambda>i. 1 \<le> i \<and> i \<le> n_of P) xs"
    by auto
  from x have "count_step P x (Some a) = Some (a(x := a x + 1))" by (simp add: count_step_def)
  then have "fold (count_step P) (x # xs) (Some a) = fold (count_step P) xs (Some (a(x := a x + 1)))"
    by (simp only: fold_simps o_apply)
  also have "\<dots> = Some (\<lambda>i. (a(x := a x + 1)) i + count_list xs i)"
    by (rule Cons.IH [OF xs])
  also have "(\<lambda>i. (a(x := a x + 1)) i + count_list xs i) = (\<lambda>i. a i + count_list (x # xs) i)"
    by (rule ext) simp
  finally show ?case .
qed

lemma precedence_check_wf:
  assumes wfp: "wf_problem P" and wfs: "wf_schedule P sch"
    and p: "\<And>i. 1 \<le> i \<Longrightarrow> i \<le> n_of P \<Longrightarrow> 0 \<le> p_of P i"
  shows "precedence_check P (start_time P sch)"
  unfolding precedence_check_def list_all_iff
proof (intro ballI)
  fix j i assume j: "j \<in> set [1..<n_of P + 1]" and i: "i \<in> set (predecessors P j)"
  from j have j1: "1 \<le> j" and j2: "j \<le> n_of P" and j0: "j \<noteq> 0" by auto
  from wf_problemD(3) [OF wfp j1 j2 i] have "1 \<le> i" "i \<le> n_of P" by simp_all
  from p [OF this] have pi: "0 \<le> p_of P i" .
  from start_time_precedence [OF wfp wfs j0 i]
  have "dle (dadd (start_time P sch i) (Fin (p_of P i))) (start_time P sch j)" .
  with pi show "\<not> less (start_time P sch j) (start_time P sch i)"
    by (cases "start_time P sch i"; cases "start_time P sch j") (simp_all add: less_def)
qed

lemma is_feasibleI:
  assumes wfp: "wf_problem P" and len: "length sch = m_of P + 1"
    and perm: "mset (concat sch) = mset [1..<n_of P + 1]"
    and r: "list_all (\<lambda>i. technology P i = REMOTE) (sch ! 0)"
    and m: "\<And>l. 1 \<le> l \<Longrightarrow> l \<le> m_of P \<Longrightarrow> list_all (\<lambda>i. technology P i = MANUAL) (sch ! l)"
    and p: "\<And>i. 1 \<le> i \<Longrightarrow> i \<le> n_of P \<Longrightarrow> 0 \<le> p_of P i"
  shows "is_feasible P sch"
proof -
  from mset_eq_setD [OF perm] have s: "set (concat sch) = set [1..<n_of P + 1]" .
  from mset_eq_imp_distinct_iff [OF perm] have d: "distinct (concat sch)" by simp
  have range: "list_all (\<lambda>i. 1 \<le> i \<and> i \<le> n_of P) (concat sch)"
    unfolding list_all_iff s by auto
  with len d have wfs: "wf_schedule P sch" by (simp add: wf_schedule_def)
  from fold_count_step_range [OF range, of "\<lambda>_. 0"]
  have ca: "count_assignment P sch = Some (\<lambda>i. count_list (concat sch) i)"
    by (simp add: count_assignment_concat [OF len])
  have ones: "list_all (\<lambda>i. count_list (concat sch) i = 1) [1..<n_of P + 1]"
    unfolding list_all_iff
  proof
    fix i assume "i \<in> set [1..<n_of P + 1]"
    with s have "i \<in> set (concat sch)" by simp
    with d [unfolded distinct_count_atmost_1 count_mset]
    show "count_list (concat sch) i = 1" by simp
  qed
  have m': "list_all (\<lambda>l. list_all (\<lambda>i. technology P i = MANUAL) (sch ! l)) [1..<m_of P + 1]"
    unfolding list_all_iff
  proof
    fix l assume "l \<in> set [1..<m_of P + 1]"
    then have "1 \<le> l" "l \<le> m_of P" by auto
    from m [OF this] show "\<forall>i\<in>set (sch ! l). technology P i = MANUAL" unfolding list_all_iff .
  qed
  note pc = precedence_check_wf [OF wfp wfs p]
  show ?thesis
    unfolding is_feasible_def ca option.case
    by (simp only: len ones r m' pc simp_thms if_False if_True)
qed

definition P_far :: Problem where
  "P_far = \<lparr> n_of = 1, m_of = 1, technology = (\<lambda>_. MANUAL),
     p_of = (\<lambda>i. if i = 0 then 0 else 1), s_of = (\<lambda>_ _ _. DBL_MAX),
     predecessors = (\<lambda>_. []), successors = (\<lambda>_. []) \<rparr>"

text \<open>
  Away from the uninitialised choice the constructor does what is expected of
  it.  Let the precedence graph be acyclic (\<open>rank\<close> increases along every edge),
  every technology MANUAL or REMOTE, at least one team present when there is a
  manual operation, the processing times non-negative, and all processing and
  travel times at most \<open>c\<close> with \<open>2 * n * c\<close> below the largest double.  Then
  \<open>Greedy::solve\<close> returns a schedule, every operation \<open>1..n\<close> is in it, and
  \<open>is_feasible\<close> accepts it.
\<close>

theorem Greedy_feasible:
  assumes wfp: "wf_problem P" and top: "topological P rank" and kt: "known_technologies P"
    and teams: "manual_ops P = [] \<or> 1 \<le> m_of P" and tb: "times_bounded P c"
  shows "\<exists>sch mk. Greedy_solve P = Some (Inr (sch, mk)) \<and>
           list_all (\<lambda>i. i \<in> set (concat sch)) [1..<n_of P + 1] \<and> is_feasible P sch"
proof -
  from greedy_loop_terminates [OF wfp top tb teams greedy_inv_init [OF wfp kt tb]]
  obtain st where run: "greedy_loop P (greedy_init P) = Some (Inr st)"
    and inv: "greedy_inv P c st" and e: "S_manual st = []" "S_remote st = []" by blast
  let ?sch = "g_schedule st"
  from greedy_invD(2) [OF inv] e have perm: "mset (concat ?sch) = mset [1..<n_of P + 1]" by simp
  have p: "0 \<le> p_of P i" if "1 \<le> i" "i \<le> n_of P" for i
    using times_boundedD(3) [OF tb that(2)] by simp
  from is_feasibleI [OF wfp greedy_invD(1) [OF inv] perm greedy_invD(3) [OF inv]
      greedy_invD(4) [OF inv] p]
  have "is_feasible P ?sch" .
  moreover from mset_eq_setD [OF perm]
  have "list_all (\<lambda>i. i \<in> set (concat ?sch)) [1..<n_of P + 1]"
    unfolding list_all_iff by simp
  moreover from run have "Greedy_solve P = Some (Inr (?sch, g_makespan st))"
    by (simp add: Greedy_solve_def)
  ultimately show ?thesis by blast
qed

lemma Greedy_solve_P_manual: "Greedy_solve P_manual = Some (Inr ([[], [1, 2]], 2))"
  by (simp add: greedy_eval P_manual_def)

lemma DBL_MAX_large: "4 < DBL_MAX"
  by (simp add: DBL_MAX_def)

theorem Greedy_feasible_witness:
  "wf_problem P_manual \<and> topological P_manual (\<lambda>i. i) \<and> known_technologies P_manual \<and>
   (manual_ops P_manual = [] \<or> 1 \<le> m_of P_manual) \<and> times_bounded P_manual 1 \<and>
   Greedy_solve P_manual = Some (Inr ([[], [1, 2]], 2)) \<and>
   list_all (\<lambda>i. i \<in> set (concat [[], [1, 2]])) [1..<n_of P_manual + 1] \<and>
   is_feasible P_manual [[], [1, 2]]"
proof -
  have top: "topological P_manual (\<lambda>i. i)"
    by (simp add: topological_def P_manual_def upt_rec)
  have kt: "known_technologies P_manual"
    by (simp add: known_technologies_def P_manual_def upt_rec)
  have teams: "manual_ops P_manual = [] \<or> 1 \<le> m_of P_manual"
    by (simp add: P_manual_def)
  have tb: "times_bounded P_manual 1"
    using DBL_MAX_large by (simp add: times_bounded_def P_manual_def upt_rec)
  from Greedy_feasible [OF wf_problem_P_manual top kt teams tb] Greedy_solve_P_manual
  have "list_all (\<lambda>i. i \<in> set (concat [[], [1, 2]])) [1..<n_of P_manual + 1] \<and>
        is_feasible P_manual [[], [1, 2]]" by simp
  with wf_problem_P_manual top kt teams tb Greedy_solve_P_manual show ?thesis by simp
qed

text \<open>
  Claim C7.  \<open>P_far\<close> has one manual operation, one team and no precedence, and
  its travel times are the largest double; the schedule \<open>[[], [1]]\<close> is feasible
  for it.  In \<open>Greedy::solve\<close> the only candidate has \<open>criterion_trial = DBL_MAX\<close>,
  which is not below the initial \<open>criterion\<close>: \<open>j\<close> and \<open>l\<close> are read before any
  assignment to them, and no schedule is returned.
\<close>

theorem Greedy_uninitialized_choice:
  "wf_problem P_far \<and> topological P_far (\<lambda>i. i) \<and> known_technologies P_far \<and>
   is_feasible P_far [[], [1]] \<and>
   Greedy_solve P_far = Some (Inl UninitializedChoice)"
proof -
  have "wf_problem P_far" "topological P_far (\<lambda>i. i)" "known_technologies P_far"
    by (simp_all add: wf_problem_def topological_def known_technologies_def P_far_def)
  moreover have "is_feasible P_far [[], [1]]"
    by (simp add: is_feasible_def count_assignment_def precedence_check_def less_def
        P_far_def sim_eval)
  moreover have "Greedy_solve P_far = Some (Inl UninitializedChoice)"
    by (simp add: greedy_eval P_far_def)
  ultimately show ?thesis by simp
qed


section \<open>The makespan returned by the greedy constructor, in the start times of its schedule\<close>

text \<open>
  The start times of a schedule are determined by the equations of the
  simulator.  \<open>sched_eq\<close> says that \<open>g\<close> solves them: at every position of the
  schedule, \<open>g\<close> is the arrival of the team (0 on lane 0) raised to the completion
  of every predecessor.  \<open>sched_order\<close> says that \<open>r\<close> numbers the operations
  of the schedule so that every operation comes after its predecessors, which
  are in the schedule, and after the operation before it on its lane.
  \<open>stuck\<close> is a state in which no lane can release its next operation, and
  \<open>sim_agree\<close> extends the invariant of the simulator: \<open>count\<close> is the number of
  released operations, and every released operation starts at \<open>g\<close>.
\<close>

definition lane_base :: "Problem \<Rightarrow> Schedule \<Rightarrow> (nat \<Rightarrow> real) \<Rightarrow> nat \<Rightarrow> nat \<Rightarrow> real" where
  "lane_base P sch g l a =
     (if l \<noteq> 0
      then g (lane_prev sch l a) + p_of P (lane_prev sch l a) + s_of P (lane_prev sch l a) (sch ! l ! a) l
      else 0)"

definition sched_eq :: "Problem \<Rightarrow> Schedule \<Rightarrow> (nat \<Rightarrow> real) \<Rightarrow> bool" where
  "sched_eq P sch g =
     (g 0 = 0 \<and>
      (\<forall>l<length sch. \<forall>a<length (sch ! l).
         g (sch ! l ! a) = fold (\<lambda>i v. max v (g i + p_of P i)) (predecessors P (sch ! l ! a))
                             (lane_base P sch g l a)))"

definition sched_order :: "Problem \<Rightarrow> Schedule \<Rightarrow> (nat \<Rightarrow> nat) \<Rightarrow> bool" where
  "sched_order P sch r =
     (\<forall>l<length sch. \<forall>a<length (sch ! l).
        (\<forall>i\<in>set (predecessors P (sch ! l ! a)). i \<in> set (concat sch) \<and> r i < r (sch ! l ! a)) \<and>
        (0 < a \<longrightarrow> r (sch ! l ! (a - 1)) < r (sch ! l ! a)))"

definition stuck :: "Problem \<Rightarrow> Schedule \<Rightarrow> sim_state \<Rightarrow> bool" where
  "stuck P sch st =
     (\<forall>l<m_of P + 1. sim_index st l < length (sch ! l) \<longrightarrow>
        sim_pendings st (sch ! l ! sim_index st l) \<noteq> 0)"

definition sim_agree :: "Problem \<Rightarrow> Schedule \<Rightarrow> (nat \<Rightarrow> real) \<Rightarrow> sim_state \<Rightarrow> bool" where
  "sim_agree P sch g st =
     (sim_inv P sch st \<and> sim_count st = card (released sch (sim_index st)) \<and>
      (\<forall>k\<in>released sch (sim_index st). sim_t st k = Fin (g k)))"

lemma wait_value_Fin:
  "\<forall>k\<in>set ks. tv k = Fin (g k) \<Longrightarrow>
   wait_value P tv ks (Fin v) = Fin (fold (\<lambda>i v. max v (g i + p_of P i)) ks v)"
proof (induction ks arbitrary: v)
  case Nil
  then show ?case by (simp add: wait_value_def)
next
  case (Cons k ks)
  then have k: "tv k = Fin (g k)" and ks: "\<forall>k\<in>set ks. tv k = Fin (g k)" by simp_all
  have "wait_value P tv (k # ks) (Fin v) = wait_value P tv ks (Fin (max v (g k + p_of P k)))"
    by (simp add: wait_value_def k)
  also have "\<dots> = Fin (fold (\<lambda>i v. max v (g i + p_of P i)) ks (max v (g k + p_of P k)))"
    by (rule Cons.IH [OF ks])
  finally show ?case by simp
qed

lemma finite_released: "finite (released sch idx)"
  by (rule finite_subset [OF released_in_concat]) simp

lemma fire_agree:
  assumes wfp: "wf_problem P" and wfs: "wf_schedule P sch" and ag: "sim_agree P sch g st"
    and eq: "sched_eq P sch g"
    and l: "l < length sch" and idx: "sim_index st l < length (sch ! l)"
    and pend: "sim_pendings st (sch ! l ! sim_index st l) = 0"
  shows "sim_agree P sch g (fire P sch l st)"
proof -
  define j where "j = sch ! l ! sim_index st l"
  define R where "R = released sch (sim_index st)"
  define i where "i = sim_location st l"
  define tj where "tj = (if l \<noteq> 0 then travel_start P (sim_t st) i j l else Fin 0)"
  define tv where "tv = (sim_t st)(j := tj)"
  define t' where "t' = wait_predecessors P j tv"
  from ag have inv: "sim_inv P sch st" and cnt: "sim_count st = card R"
    and agr: "\<And>k. k \<in> R \<Longrightarrow> sim_t st k = Fin (g k)"
    unfolding sim_agree_def R_def by blast+
  from inv have i1: "\<And>l. l < length sch \<Longrightarrow> sim_index st l \<le> length (sch ! l)"
    and i2: "sim_t st 0 = Fin 0"
    and i4: "\<And>k. k \<in> set (concat sch) \<Longrightarrow> sim_pendings st k = int (card (set (predecessors P k) - R))"
    and i5: "\<And>l. l < length sch \<Longrightarrow> sim_location st l = lane_prev sch l (sim_index st l)"
    unfolding sim_inv_def R_def by blast+
  from eq have g0: "g 0 = 0"
    and geq: "g j = fold (\<lambda>i v. max v (g i + p_of P i)) (predecessors P j)
                      (lane_base P sch g l (sim_index st l))"
    unfolding sched_eq_def j_def using l idx by blast+
  from wfs have dist: "distinct (concat sch)" by (simp add: wf_schedule_def)
  have jc: "j \<in> set (concat sch)" unfolding j_def using l idx by (rule nth_nth_in_concat)
  from wf_schedule_range [OF wfs jc] have j0: "j \<noteq> 0" by simp
  have jn: "j \<notin> R" unfolding j_def R_def using dist l idx by (rule head_not_released)
  have preds: "set (predecessors P j) \<subseteq> R"
  proof -
    from i4 [OF jc] pend have "card (set (predecessors P j) - R) = 0" by (simp add: j_def)
    then have "set (predecessors P j) - R = {}" by simp
    then show ?thesis by blast
  qed
  with jn have jnp: "j \<notin> set (predecessors P j)" by blast
  have t'_other: "\<And>k. k \<noteq> j \<Longrightarrow> t' k = sim_t st k"
    unfolding t'_def tv_def using jnp by (simp add: wait_predecessors_apply)
  have t'_j: "t' j = wait_value P tv (predecessors P j) tj"
    unfolding t'_def using jnp by (simp add: wait_predecessors_apply tv_def)
  have i_prev: "i = lane_prev sch l (sim_index st l)" unfolding i_def using l by (rule i5)
  have "lane_prev sch l (sim_index st l) = 0 \<or>
      lane_prev sch l (sim_index st l) \<in> released sch (sim_index st)"
    using l i1 [OF l] by (intro lane_prev_released) simp_all
  with i_prev have i_cases: "i = 0 \<or> i \<in> R" by (simp add: R_def)
  have ti: "sim_t st i = Fin (g i)"
    using i_cases
  proof
    assume "i = 0" with i2 g0 show ?thesis by simp
  next
    assume "i \<in> R" then show ?thesis by (rule agr)
  qed
  have tj: "tj = Fin (lane_base P sch g l (sim_index st l))"
    unfolding tj_def lane_base_def travel_start_def i_prev [symmetric] j_def [symmetric]
    by (simp add: ti)
  have tvp: "\<forall>k\<in>set (predecessors P j). tv k = Fin (g k)"
  proof
    fix k assume "k \<in> set (predecessors P j)"
    with preds have kR: "k \<in> R" by blast
    with jn have "k \<noteq> j" by blast
    with agr [OF kR] show "tv k = Fin (g k)" by (simp add: tv_def)
  qed
  have t'j: "t' j = Fin (g j)"
    unfolding t'_j tj geq by (rule wait_value_Fin [OF tvp])
  have sel: "sim_t (fire P sch l st) = t'"
    "sim_index (fire P sch l st) = (sim_index st)(l := sim_index st l + 1)"
    "sim_count (fire P sch l st) = sim_count st + 1"
    by (simp_all add: fire_def Let_def t'_def tv_def tj_def i_def j_def)
  have R': "released sch ((sim_index st)(l := sim_index st l + 1)) = insert j R"
    unfolding R_def j_def using l idx by (rule released_step)
  have fin: "finite R" unfolding R_def by (rule finite_released)
  have a: "sim_inv P sch (fire P sch l st)"
    using wfp wfs inv l idx pend by (rule fire_inv)
  have b: "sim_count (fire P sch l st) = card (released sch (sim_index (fire P sch l st)))"
    unfolding sel R' cnt using fin jn by simp
  have c: "\<forall>k\<in>released sch (sim_index (fire P sch l st)). sim_t (fire P sch l st) k = Fin (g k)"
    unfolding sel R'
  proof
    fix k assume "k \<in> insert j R"
    then show "t' k = Fin (g k)"
    proof
      assume "k = j" with t'j show ?thesis by simp
    next
      assume kR: "k \<in> R"
      with jn have "k \<noteq> j" by blast
      from t'_other [OF this] agr [OF kR] show ?thesis by simp
    qed
  qed
  from a b c show ?thesis unfolding sim_agree_def by blast
qed

lemma sim_agree_feasibility [simp]:
  "sim_agree P sch g (st\<lparr> sim_feasibility := b \<rparr>) = sim_agree P sch g st"
  by (simp add: sim_agree_def)

lemma lane_step_agree:
  assumes "wf_problem P" and "wf_schedule P sch" and "sim_agree P sch g st" and "sched_eq P sch g"
    and "l < length sch"
  shows "sim_agree P sch g (lane_step P sch l st)"
  using lane_step_cases [of P sch l st] assms fire_agree [of P sch g st l] by auto

lemma fold_lane_step_agree:
  assumes "wf_problem P" and "wf_schedule P sch" and "sched_eq P sch g"
  shows "sim_agree P sch g st \<Longrightarrow> list_all (\<lambda>l. l < length sch) ls \<Longrightarrow>
         sim_agree P sch g (fold (lane_step P sch) ls st)"
proof (induction ls arbitrary: st)
  case Nil
  then show ?case by simp
next
  case (Cons l ls)
  from Cons.prems have "l < length sch" and rest: "list_all (\<lambda>l. l < length sch) ls" by simp_all
  from lane_step_agree [OF assms(1,2) Cons.prems(1) assms(3) this(1)] Cons.IH rest show ?case by simp
qed

lemma sim_round_agree:
  assumes "wf_problem P" and "wf_schedule P sch" and "sched_eq P sch g" and "sim_agree P sch g st"
  shows "sim_agree P sch g (sim_round P sch st)"
proof -
  from assms(2) have "list_all (\<lambda>l. l < length sch) [0..<m_of P + 1]"
    by (simp add: wf_schedule_def list_all_iff)
  with fold_lane_step_agree [OF assms(1,2,3), of "st\<lparr> sim_feasibility := False \<rparr>" "[0..<m_of P + 1]"]
    assms(4)
  show ?thesis by (simp add: sim_round_def)
qed

lemma sim_loop_agree:
  "wf_problem P \<Longrightarrow> wf_schedule P sch \<Longrightarrow> sched_eq P sch g \<Longrightarrow> sim_agree P sch g st \<Longrightarrow>
   sim_agree P sch g (sim_loop P sch st)"
proof (induction P sch st rule: sim_loop.induct)
  case (1 P sch st)
  show ?case
  proof (cases "sim_count st < n_of P \<and> sim_feasibility st")
    case True
    from sim_round_agree [OF "1.prems"] have "sim_agree P sch g (sim_round P sch st)" .
    from "1.IH" [OF True "1.prems"(1,2,3) this]
    have "sim_agree P sch g (sim_loop P sch (sim_round P sch st))" .
    moreover have "sim_loop P sch st = sim_loop P sch (sim_round P sch st)"
      by (subst sim_loop.simps) (rule if_P [OF True])
    ultimately show ?thesis by simp
  next
    case False
    have "sim_loop P sch st = st"
      by (subst sim_loop.simps) (rule if_not_P [OF False])
    with "1.prems"(4) show ?thesis by simp
  qed
qed

lemma init_agree:
  assumes "wf_problem P" and "wf_schedule P sch"
  shows "sim_agree P sch g (init_state P sch)"
  using init_inv [OF assms] by (simp add: sim_agree_def init_state_def)

lemma final_agree:
  "wf_problem P \<Longrightarrow> wf_schedule P sch \<Longrightarrow> sched_eq P sch g \<Longrightarrow>
   sim_agree P sch g (final_state P sch)"
  unfolding final_state_def by (intro sim_loop_agree init_agree) assumption+

lemma lane_step_blocked:
  assumes "\<not> sim_feasibility (lane_step P sch l st)"
  shows "lane_step P sch l st = st"
    and "sim_index st l < length (sch ! l) \<Longrightarrow> sim_pendings st (sch ! l ! sim_index st l) \<noteq> 0"
  using assms by (auto simp: lane_step_def Let_def split: if_splits)

lemma lane_step_feasibility:
  "sim_feasibility st \<Longrightarrow> sim_feasibility (lane_step P sch l st)"
  by (simp add: lane_step_def Let_def)

lemma fold_lane_step_feasibility:
  "sim_feasibility st \<Longrightarrow> sim_feasibility (fold (lane_step P sch) ls st)"
  by (induction ls arbitrary: st) (simp_all add: lane_step_feasibility)

lemma fold_lane_step_blocked:
  "\<not> sim_feasibility (fold (lane_step P sch) ls st) \<Longrightarrow>
   fold (lane_step P sch) ls st = st \<and>
   (\<forall>l\<in>set ls. sim_index st l < length (sch ! l) \<longrightarrow> sim_pendings st (sch ! l ! sim_index st l) \<noteq> 0)"
proof (induction ls arbitrary: st)
  case Nil
  then show ?case by simp
next
  case (Cons l ls)
  from Cons.prems have f: "\<not> sim_feasibility (fold (lane_step P sch) ls (lane_step P sch l st))"
    by simp
  with fold_lane_step_feasibility [of "lane_step P sch l st" P sch ls]
  have nf: "\<not> sim_feasibility (lane_step P sch l st)" by blast
  note b = lane_step_blocked [OF nf]
  from Cons.IH [OF f] b show ?case by simp
qed

lemma sim_round_stuck:
  assumes "\<not> sim_feasibility (sim_round P sch st)"
  shows "stuck P sch (sim_round P sch st)"
proof -
  let ?s = "st\<lparr> sim_feasibility := False \<rparr>"
  from assms have "\<not> sim_feasibility (fold (lane_step P sch) [0..<m_of P + 1] ?s)"
    by (simp add: sim_round_def)
  from fold_lane_step_blocked [OF this]
  have e: "sim_round P sch st = ?s"
    and b: "\<forall>l\<in>set [0..<m_of P + 1]. sim_index ?s l < length (sch ! l) \<longrightarrow>
               sim_pendings ?s (sch ! l ! sim_index ?s l) \<noteq> 0"
    by (simp_all add: sim_round_def)
  show ?thesis unfolding stuck_def e
  proof (intro allI impI)
    fix l assume "l < m_of P + 1" and i: "sim_index ?s l < length (sch ! l)"
    then have "l \<in> set [0..<m_of P + 1]" by (simp only: set_upt atLeastLessThan_iff) simp
    with b i show "sim_pendings ?s (sch ! l ! sim_index ?s l) \<noteq> 0" by blast
  qed
qed

lemma sim_loop_exit:
  "sim_feasibility st \<or> stuck P sch st \<Longrightarrow>
   n_of P \<le> sim_count (sim_loop P sch st) \<or> stuck P sch (sim_loop P sch st)"
proof (induction P sch st rule: sim_loop.induct)
  case (1 P sch st)
  show ?case
  proof (cases "sim_count st < n_of P \<and> sim_feasibility st")
    case True
    have "sim_feasibility (sim_round P sch st) \<or> stuck P sch (sim_round P sch st)"
      using sim_round_stuck [of P sch st] by blast
    from "1.IH" [OF True this]
    have "n_of P \<le> sim_count (sim_loop P sch (sim_round P sch st)) \<or>
          stuck P sch (sim_loop P sch (sim_round P sch st))" .
    moreover have "sim_loop P sch st = sim_loop P sch (sim_round P sch st)"
      by (subst sim_loop.simps) (rule if_P [OF True])
    ultimately show ?thesis by simp
  next
    case False
    have e: "sim_loop P sch st = st"
      by (subst sim_loop.simps) (rule if_not_P [OF False])
    from False "1.prems" have "n_of P \<le> sim_count st \<or> stuck P sch st" by auto
    then show ?thesis unfolding e .
  qed
qed

lemma final_exit:
  "n_of P \<le> sim_count (final_state P sch) \<or> stuck P sch (final_state P sch)"
  unfolding final_state_def by (rule sim_loop_exit) (simp add: init_state_def)

lemma concat_position:
  assumes "j \<in> set (concat sch)"
  obtains l a where "l < length sch" and "a < length (sch ! l)" and "j = sch ! l ! a"
proof -
  from assms obtain xs where "xs \<in> set sch" "j \<in> set xs" by auto
  then obtain l a where "l < length sch" "xs = sch ! l" "a < length xs" "j = xs ! a"
    by (auto simp: in_set_conv_nth)
  with that show ?thesis by blast
qed

lemma all_released:
  assumes wfp: "wf_problem P" and wfs: "wf_schedule P sch"
    and eq: "sched_eq P sch g" and ord: "sched_order P sch r"
  shows "released sch (sim_index (final_state P sch)) = set (concat sch)"
proof (rule ccontr)
  let ?s = "final_state P sch"
  let ?R = "released sch (sim_index ?s)"
  assume "?R \<noteq> set (concat sch)"
  with released_in_concat [of sch "sim_index ?s"] obtain j0 where "j0 \<in> set (concat sch) \<and> j0 \<notin> ?R"
    by blast
  from ex_has_least_nat [of "\<lambda>j. j \<in> set (concat sch) \<and> j \<notin> ?R" j0 r, OF this]
  obtain j where jc: "j \<in> set (concat sch)" and jR: "j \<notin> ?R"
    and least: "\<And>y. y \<in> set (concat sch) \<Longrightarrow> y \<notin> ?R \<Longrightarrow> r j \<le> r y" by blast
  from jc obtain l a where l: "l < length sch" and a: "a < length (sch ! l)" and j: "j = sch ! l ! a"
    by (rule concat_position)
  from final_agree [OF wfp wfs eq] have inv: "sim_inv P sch ?s"
    and cnt: "sim_count ?s = card ?R" by (simp_all add: sim_agree_def)
  from wfs have dist: "distinct (concat sch)" and len: "length sch = m_of P + 1"
    by (simp_all add: wf_schedule_def)
  from ord l a j have preds: "\<And>i. i \<in> set (predecessors P j) \<Longrightarrow> i \<in> set (concat sch) \<and> r i < r j"
    and prev: "0 < a \<Longrightarrow> r (sch ! l ! (a - 1)) < r j"
    unfolding sched_order_def by blast+
  have smaller: "y \<in> ?R" if "y \<in> set (concat sch)" "r y < r j" for y
    using least [of y] that by force
  have idx_le: "sim_index ?s l \<le> a"
  proof (rule ccontr)
    assume "\<not> sim_index ?s l \<le> a"
    then have "a < sim_index ?s l" by simp
    with l a j have "j \<in> ?R" unfolding released_def by blast
    with jR show False ..
  qed
  have head: "sim_index ?s l = a"
  proof (rule ccontr)
    assume "sim_index ?s l \<noteq> a"
    with idx_le have lt: "sim_index ?s l < a" by simp
    then have a0: "0 < a" by simp
    with a have a1: "a - 1 < length (sch ! l)" by simp
    from nth_nth_in_concat [OF l a1] prev [OF a0] have "sch ! l ! (a - 1) \<in> ?R" by (rule smaller)
    then obtain l' a' where h: "l' < length sch" "a' < sim_index ?s l'" "a' < length (sch ! l')"
      "sch ! l ! (a - 1) = sch ! l' ! a'" unfolding released_def by blast
    from concat_position_inj [OF dist l h(1) a1 h(3) h(4)] have "l = l'" "a - 1 = a'" by simp_all
    with h(2) lt show False by simp
  qed
  have "set (predecessors P j) - ?R = {}"
    using preds smaller by blast
  moreover from inv jc have "sim_pendings ?s j = int (card (set (predecessors P j) - ?R))"
    unfolding sim_inv_def by blast
  ultimately have pend: "sim_pendings ?s j = 0" by simp
  from final_exit [of P sch] show False
  proof
    assume "stuck P sch ?s"
    with l len a head j pend show False unfolding stuck_def by auto
  next
    assume n: "n_of P \<le> sim_count ?s"
    from jc jR released_in_concat [of sch "sim_index ?s"] have "?R \<subset> set (concat sch)" by blast
    then have "card ?R < card (set (concat sch))" by (intro psubset_card_mono) simp_all
    also have "set (concat sch) \<subseteq> {1..n_of P}"
    proof
      fix x assume "x \<in> set (concat sch)"
      from wf_schedule_range [OF wfs this] show "x \<in> {1..n_of P}" by simp
    qed
    then have "card (set (concat sch)) \<le> card {1..n_of P}" by (intro card_mono) simp_all
    finally show False using n cnt by simp
  qed
qed

lemma start_time_agree:
  assumes wfp: "wf_problem P" and wfs: "wf_schedule P sch"
    and eq: "sched_eq P sch g" and ord: "sched_order P sch r"
    and j: "j \<in> set (concat sch)"
  shows "start_time P sch j = Fin (g j)"
proof -
  from all_released [OF wfp wfs eq ord] j
  have "j \<in> released sch (sim_index (final_state P sch))" by simp
  with final_agree [OF wfp wfs eq] show ?thesis
    unfolding sim_agree_def start_time_final by blast
qed

lemma append_lane_position:
  assumes "l < length sch" and "l' < length sch" and "a < length (sch[l := sch ! l @ [j]] ! l')"
  shows "(l' = l \<and> a = length (sch ! l) \<and> sch[l := sch ! l @ [j]] ! l' ! a = j) \<or>
         (a < length (sch ! l') \<and> sch[l := sch ! l @ [j]] ! l' ! a = sch ! l' ! a)"
proof (cases "l' = l")
  case True
  with assms have "a < Suc (length (sch ! l))" by simp
  then have "a = length (sch ! l) \<or> a < length (sch ! l)" by auto
  then show ?thesis using True assms(1) by (auto simp: nth_append)
next
  case False
  with assms show ?thesis by simp
qed

lemma append_lane_old:
  assumes "l < length sch" and "l' < length sch" and "a < length (sch ! l')"
  shows "sch[l := sch ! l @ [j]] ! l' ! a = sch ! l' ! a"
  using assms by (cases "l' = l") (simp_all add: nth_append)

lemma lane_prev_append:
  assumes "l < length sch" and "l' < length sch" and "a \<le> length (sch ! l')"
  shows "lane_prev (sch[l := sch ! l @ [j]]) l' a = lane_prev sch l' a"
proof (cases "a = 0")
  case True
  then show ?thesis by (simp add: lane_prev_def)
next
  case False
  with assms(3) have "a - 1 < length (sch ! l')" by simp
  from append_lane_old [OF assms(1,2) this, of j] False show ?thesis by (simp add: lane_prev_def)
qed

lemma lane_prev_in:
  assumes "l < length sch" and "a \<le> length (sch ! l)"
  shows "lane_prev sch l a = 0 \<or> lane_prev sch l a \<in> set (concat sch)"
proof (cases "a = 0")
  case True
  then show ?thesis by (simp add: lane_prev_def)
next
  case False
  with assms(2) have "a - 1 < length (sch ! l)" by simp
  from nth_nth_in_concat [OF assms(1) this] False show ?thesis by (simp add: lane_prev_def)
qed

lemma sched_order_closed:
  assumes "sched_order P sch r" and "k \<in> set (concat sch)"
  shows "set (predecessors P k) \<subseteq> set (concat sch)"
proof -
  from assms(2) obtain l a where "l < length sch" "a < length (sch ! l)" "k = sch ! l ! a"
    by (rule concat_position)
  with assms(1) show ?thesis unfolding sched_order_def by blast
qed

lemma sched_eq_append:
  assumes eq: "sched_eq P sch g" and ord: "sched_order P sch r"
    and l: "l < length sch" and jn: "j \<notin> set (concat sch)" and j0: "j \<noteq> 0"
    and pj: "set (predecessors P j) \<subseteq> set (concat sch)"
    and other: "\<And>k. k \<noteq> j \<Longrightarrow> g' k = g k"
    and new: "g' j = fold (\<lambda>i v. max v (g i + p_of P i)) (predecessors P j)
                (if l \<noteq> 0 then g (lane_prev sch l (length (sch ! l)))
                     + p_of P (lane_prev sch l (length (sch ! l)))
                     + s_of P (lane_prev sch l (length (sch ! l))) j l else 0)"
  shows "sched_eq P (sch[l := sch ! l @ [j]]) g'"
proof -
  let ?sch = "sch[l := sch ! l @ [j]]"
  have same: "g' k = g k" if "k = 0 \<or> k \<in> set (concat sch)" for k
    using that jn j0 other [of k] by auto
  have foldc: "fold (\<lambda>i v. max v (g' i + p_of P i)) ps v = fold (\<lambda>i v. max v (g i + p_of P i)) ps v"
    if "set ps \<subseteq> set (concat sch)" for ps v
  proof (rule fold_cong [OF refl refl])
    fix x assume "x \<in> set ps"
    with that have "x \<in> set (concat sch)" by blast
    then have "g' x = g x" by (intro same disjI2)
    then show "(\<lambda>v. max v (g' x + p_of P x)) = (\<lambda>v. max v (g x + p_of P x))" by simp
  qed
  have g0: "g' 0 = 0" using eq same [of 0] by (simp add: sched_eq_def)
  have pos: "g' (?sch ! l' ! a) = fold (\<lambda>i v. max v (g' i + p_of P i)) (predecessors P (?sch ! l' ! a))
                             (lane_base P ?sch g' l' a)"
    if l': "l' < length ?sch" and a: "a < length (?sch ! l')" for l' a
  proof -
    from l' have l'': "l' < length sch" by simp
    from append_lane_position [OF l l'' a]
    show ?thesis
    proof
      assume h: "l' = l \<and> a = length (sch ! l) \<and> ?sch ! l' ! a = j"
      then have e: "?sch ! l' ! a = j" and l'l: "l' = l" and aa: "a = length (sch ! l)" by blast+
      have lp: "lane_prev ?sch l (length (sch ! l)) = lane_prev sch l (length (sch ! l))"
        using l l by (rule lane_prev_append) simp
      from lane_prev_in [OF l order_refl]
      have "g' (lane_prev sch l (length (sch ! l))) = g (lane_prev sch l (length (sch ! l)))"
        by (rule same)
      then have base: "lane_base P ?sch g' l (length (sch ! l))
          = (if l \<noteq> 0 then g (lane_prev sch l (length (sch ! l)))
                     + p_of P (lane_prev sch l (length (sch ! l)))
                     + s_of P (lane_prev sch l (length (sch ! l))) j l else 0)"
        using e l'l aa by (simp add: lane_base_def lp)
      have e': "?sch ! l ! length (sch ! l) = j" using e unfolding l'l aa .
      show ?thesis unfolding l'l aa e' base foldc [OF pj] by (rule new)
    next
      assume h: "a < length (sch ! l') \<and> ?sch ! l' ! a = sch ! l' ! a"
      then have a': "a < length (sch ! l')" and e: "?sch ! l' ! a = sch ! l' ! a" by blast+
      let ?e = "sch ! l' ! a"
      from nth_nth_in_concat [OF l'' a'] have ec: "?e \<in> set (concat sch)" .
      have lp: "lane_prev ?sch l' a = lane_prev sch l' a"
        using l l'' by (rule lane_prev_append) (use a' in simp)
      from a' have "a \<le> length (sch ! l')" by simp
      from lane_prev_in [OF l'' this]
      have "g' (lane_prev sch l' a) = g (lane_prev sch l' a)" by (rule same)
      then have base: "lane_base P ?sch g' l' a = lane_base P sch g l' a"
        by (simp add: lane_base_def lp e)
      from eq l'' a' have "g ?e = fold (\<lambda>i v. max v (g i + p_of P i)) (predecessors P ?e)
                             (lane_base P sch g l' a)"
        unfolding sched_eq_def by blast
      with same [of ?e] ec show ?thesis
        unfolding e base foldc [OF sched_order_closed [OF ord ec]] by simp
    qed
  qed
  from g0 pos show ?thesis unfolding sched_eq_def by blast
qed

lemma sched_order_append:
  assumes ord: "sched_order P sch r" and bound: "\<forall>k\<in>set (concat sch). r k < K"
    and l: "l < length sch" and jn: "j \<notin> set (concat sch)"
    and pj: "set (predecessors P j) \<subseteq> set (concat sch)"
  shows "sched_order P (sch[l := sch ! l @ [j]]) (r(j := K))"
    and "\<forall>k\<in>set (concat (sch[l := sch ! l @ [j]])). (r(j := K)) k < Suc K"
proof -
  let ?sch = "sch[l := sch ! l @ [j]]"
  let ?r = "r(j := K)"
  note cs = concat_append_lane(1) [OF l, of j]
  have same: "?r k = r k" if "k \<in> set (concat sch)" for k
    using that jn by auto
  show "\<forall>k\<in>set (concat ?sch). ?r k < Suc K"
    unfolding cs
  proof
    fix k assume "k \<in> insert j (set (concat sch))"
    then show "?r k < Suc K"
    proof
      assume "k = j" then show ?thesis by simp
    next
      assume kc: "k \<in> set (concat sch)"
      with bound have "r k < K" by blast
      with same [OF kc] show ?thesis by simp
    qed
  qed
  have pos: "(\<forall>i\<in>set (predecessors P (?sch ! l' ! a)). i \<in> set (concat ?sch) \<and> ?r i < ?r (?sch ! l' ! a)) \<and>
        (0 < a \<longrightarrow> ?r (?sch ! l' ! (a - 1)) < ?r (?sch ! l' ! a))"
    if l': "l' < length ?sch" and a: "a < length (?sch ! l')" for l' a
  proof -
    from l' have l'': "l' < length sch" by simp
    from append_lane_position [OF l l'' a]
    show ?thesis
    proof
      assume h: "l' = l \<and> a = length (sch ! l) \<and> ?sch ! l' ! a = j"
      then have e: "?sch ! l' ! a = j" and l'l: "l' = l" and aa: "a = length (sch ! l)" by blast+
      have 1: "\<forall>i\<in>set (predecessors P j). i \<in> set (concat ?sch) \<and> ?r i < ?r j"
      proof
        fix i assume "i \<in> set (predecessors P j)"
        with pj have ic: "i \<in> set (concat sch)" by blast
        with bound have "r i < K" by blast
        with same [OF ic] have "?r i < ?r j" by simp
        moreover from ic have "i \<in> set (concat ?sch)" unfolding cs by blast
        ultimately show "i \<in> set (concat ?sch) \<and> ?r i < ?r j" by blast
      qed
      have 2: "?r (?sch ! l ! (a - 1)) < ?r j" if "0 < a"
      proof -
        from that aa have a1: "a - 1 < length (sch ! l)" by simp
        from append_lane_old [OF l l a1, of j] have "?sch ! l ! (a - 1) = sch ! l ! (a - 1)" .
        moreover from nth_nth_in_concat [OF l a1] have c: "sch ! l ! (a - 1) \<in> set (concat sch)" .
        moreover from bound c have "r (sch ! l ! (a - 1)) < K" by blast
        ultimately show ?thesis using same [OF c] by simp
      qed
      have e': "?sch ! l ! a = j" using e unfolding l'l .
      from 1 2 show ?thesis unfolding l'l e' by blast
    next
      assume h: "a < length (sch ! l') \<and> ?sch ! l' ! a = sch ! l' ! a"
      then have a': "a < length (sch ! l')" and e: "?sch ! l' ! a = sch ! l' ! a" by blast+
      let ?e = "sch ! l' ! a"
      from nth_nth_in_concat [OF l'' a'] have ec: "?e \<in> set (concat sch)" .
      from ord l'' a' have o1: "\<And>i. i \<in> set (predecessors P ?e) \<Longrightarrow> i \<in> set (concat sch) \<and> r i < r ?e"
        and o2: "0 < a \<Longrightarrow> r (sch ! l' ! (a - 1)) < r ?e"
        unfolding sched_order_def by blast+
      have 1: "\<forall>i\<in>set (predecessors P ?e). i \<in> set (concat ?sch) \<and> ?r i < ?r ?e"
      proof
        fix i assume "i \<in> set (predecessors P ?e)"
        from o1 [OF this] have ic: "i \<in> set (concat sch)" and lt: "r i < r ?e" by blast+
        from lt same [OF ic] same [OF ec] have "?r i < ?r ?e" by simp
        moreover from ic have "i \<in> set (concat ?sch)" unfolding cs by blast
        ultimately show "i \<in> set (concat ?sch) \<and> ?r i < ?r ?e" by blast
      qed
      have 2: "?r (?sch ! l' ! (a - 1)) < ?r ?e" if "0 < a"
      proof -
        from a' have a1: "a - 1 < length (sch ! l')" by simp
        from append_lane_old [OF l l'' a1, of j] have "?sch ! l' ! (a - 1) = sch ! l' ! (a - 1)" .
        moreover from nth_nth_in_concat [OF l'' a1] have c: "sch ! l' ! (a - 1) \<in> set (concat sch)" .
        ultimately show ?thesis using o2 [OF that] same [OF c] same [OF ec] by simp
      qed
      from 1 2 show ?thesis unfolding e by blast
    qed
  qed
  then show "sched_order P ?sch ?r" unfolding sched_order_def by blast
qed

text \<open>
  The invariant of the outer loop of \<open>Greedy::solve\<close> that ties the array \<open>t\<close>
  of the constructor to its schedule: the lanes, \<open>S_manual\<close> and \<open>S_remote\<close> hold
  operations \<open>1..n\<close>, none twice; every manual operation is on a lane or in
  \<open>S_manual\<close>; \<open>gamma[k]\<close> counts the predecessors of \<open>k\<close> not yet scheduled;
  \<open>phi[l]\<close> is the last operation of lane \<open>l\<close>, or 0; \<open>t\<close> solves the equations
  of the schedule; and the order in which the operations were scheduled is an
  order of the schedule.
\<close>

definition trace_inv :: "Problem \<Rightarrow> greedy_state \<Rightarrow> bool" where
  "trace_inv P st =
     (length (g_schedule st) = m_of P + 1 \<and>
      distinct (concat (g_schedule st) @ S_manual st @ S_remote st) \<and>
      (\<forall>j\<in>set (concat (g_schedule st) @ S_manual st @ S_remote st). 1 \<le> j \<and> j \<le> n_of P) \<and>
      set (manual_ops P) \<subseteq> set (concat (g_schedule st)) \<union> set (S_manual st) \<and>
      (\<forall>k. 1 \<le> k \<and> k \<le> n_of P \<longrightarrow>
           gamma st k = int (card (set (predecessors P k) - set (concat (g_schedule st))))) \<and>
      (\<forall>l. 1 \<le> l \<and> l \<le> m_of P \<longrightarrow>
           phi st l = lane_prev (g_schedule st) l (length (g_schedule st ! l))) \<and>
      sched_eq P (g_schedule st) (g_t st) \<and>
      (\<exists>r. sched_order P (g_schedule st) r \<and>
           (\<forall>k\<in>set (concat (g_schedule st)). r k < length (concat (g_schedule st)))))"

lemma trace_invD:
  assumes "trace_inv P st"
  shows "length (g_schedule st) = m_of P + 1"
    and "distinct (concat (g_schedule st) @ S_manual st @ S_remote st)"
    and "\<forall>j\<in>set (concat (g_schedule st) @ S_manual st @ S_remote st). 1 \<le> j \<and> j \<le> n_of P"
    and "set (manual_ops P) \<subseteq> set (concat (g_schedule st)) \<union> set (S_manual st)"
    and "\<forall>k. 1 \<le> k \<and> k \<le> n_of P \<longrightarrow>
           gamma st k = int (card (set (predecessors P k) - set (concat (g_schedule st))))"
    and "\<And>l. 1 \<le> l \<Longrightarrow> l \<le> m_of P \<Longrightarrow>
           phi st l = lane_prev (g_schedule st) l (length (g_schedule st ! l))"
    and "sched_eq P (g_schedule st) (g_t st)"
    and "\<exists>r. sched_order P (g_schedule st) r \<and>
           (\<forall>k\<in>set (concat (g_schedule st)). r k < length (concat (g_schedule st)))"
  using assms unfolding trace_inv_def by blast+

lemma trace_invI:
  assumes "length (g_schedule st) = m_of P + 1"
    and "distinct (concat (g_schedule st) @ S_manual st @ S_remote st)"
    and "\<forall>j\<in>set (concat (g_schedule st) @ S_manual st @ S_remote st). 1 \<le> j \<and> j \<le> n_of P"
    and "set (manual_ops P) \<subseteq> set (concat (g_schedule st)) \<union> set (S_manual st)"
    and "\<forall>k. 1 \<le> k \<and> k \<le> n_of P \<longrightarrow>
           gamma st k = int (card (set (predecessors P k) - set (concat (g_schedule st))))"
    and "\<And>l. 1 \<le> l \<Longrightarrow> l \<le> m_of P \<Longrightarrow>
           phi st l = lane_prev (g_schedule st) l (length (g_schedule st ! l))"
    and "sched_eq P (g_schedule st) (g_t st)"
    and "\<exists>r. sched_order P (g_schedule st) r \<and>
           (\<forall>k\<in>set (concat (g_schedule st)). r k < length (concat (g_schedule st)))"
  shows "trace_inv P st"
  using assms unfolding trace_inv_def by blast

lemma trace_inv_init:
  assumes wfp: "wf_problem P"
  shows "trace_inv P (greedy_init P)"
proof (rule trace_invI)
  note f = greedy_init_fields [of P]
  have e: "concat (g_schedule (greedy_init P)) = []"
    unfolding f create_empty_schedule_def by simp
  have lane: "g_schedule (greedy_init P) ! l = []" if "l < m_of P + 1" for l
    unfolding f create_empty_schedule_def using that by (rule nth_replicate)
  show "length (g_schedule (greedy_init P)) = m_of P + 1"
    unfolding f create_empty_schedule_def by simp
  show "distinct (concat (g_schedule (greedy_init P)) @ S_manual (greedy_init P) @ S_remote (greedy_init P))"
    unfolding e f(1,2) manual_ops_def remote_ops_def by auto
  show "\<forall>j\<in>set (concat (g_schedule (greedy_init P)) @ S_manual (greedy_init P) @ S_remote (greedy_init P)).
          1 \<le> j \<and> j \<le> n_of P"
    unfolding e f(1,2) manual_ops_def remote_ops_def by auto
  show "set (manual_ops P) \<subseteq> set (concat (g_schedule (greedy_init P))) \<union> set (S_manual (greedy_init P))"
    unfolding f(1) by blast
  show "\<forall>k. 1 \<le> k \<and> k \<le> n_of P \<longrightarrow>
          gamma (greedy_init P) k
            = int (card (set (predecessors P k) - set (concat (g_schedule (greedy_init P)))))"
  proof (intro allI impI)
    fix k assume k: "1 \<le> k \<and> k \<le> n_of P"
    then have "distinct (predecessors P k)" using wf_problemD(1) [OF wfp] by blast
    from distinct_card [OF this] k
    show "gamma (greedy_init P) k
            = int (card (set (predecessors P k) - set (concat (g_schedule (greedy_init P)))))"
      unfolding e f(7) by simp
  qed
  show "phi (greedy_init P) l
          = lane_prev (g_schedule (greedy_init P)) l (length (g_schedule (greedy_init P) ! l))"
    if "1 \<le> l" "l \<le> m_of P" for l
  proof -
    from that have "l < m_of P + 1" by simp
    from lane [OF this] show ?thesis unfolding f(6) by (simp add: lane_prev_def)
  qed
  have none: False if "l < length (g_schedule (greedy_init P))"
    "a < length (g_schedule (greedy_init P) ! l)" for l a
  proof -
    from that(1) have "l < m_of P + 1" unfolding f create_empty_schedule_def by simp
    from lane [OF this] that(2) show False by simp
  qed
  have "g_t (greedy_init P) 0 = 0" unfolding f by simp
  with none show "sched_eq P (g_schedule (greedy_init P)) (g_t (greedy_init P))"
    unfolding sched_eq_def by blast
  have "sched_order P (g_schedule (greedy_init P)) (\<lambda>_. 0)"
    unfolding sched_order_def using none by blast
  moreover have "\<forall>k\<in>set (concat (g_schedule (greedy_init P))). (\<lambda>_. 0 :: nat) k
      < length (concat (g_schedule (greedy_init P)))"
    unfolding e by simp
  ultimately show "\<exists>r. sched_order P (g_schedule (greedy_init P)) r \<and>
      (\<forall>k\<in>set (concat (g_schedule (greedy_init P))). r k < length (concat (g_schedule (greedy_init P))))"
    by blast
qed

lemma trace_ready:
  assumes inv: "trace_inv P st" and j: "j \<in> set (S_manual st) \<union> set (S_remote st)"
    and g: "gamma st j = 0"
  shows "1 \<le> j" and "j \<le> n_of P" and "j \<notin> set (concat (g_schedule st))"
    and "set (predecessors P j) \<subseteq> set (concat (g_schedule st))"
    and "j \<notin> set (predecessors P j)"
proof -
  from trace_invD(3) [OF inv] j show r: "1 \<le> j" "j \<le> n_of P" by auto
  from trace_invD(2) [OF inv] j show n: "j \<notin> set (concat (g_schedule st))" by auto
  from trace_invD(5) [OF inv] r g
  have "card (set (predecessors P j) - set (concat (g_schedule st))) = 0" by simp
  then have "set (predecessors P j) - set (concat (g_schedule st)) = {}" by simp
  then show s: "set (predecessors P j) \<subseteq> set (concat (g_schedule st))" by blast
  with n show "j \<notin> set (predecessors P j)" by blast
qed

lemma wait_scheduled_new:
  assumes "j \<notin> set (predecessors P j)"
  shows "wait_scheduled P j (tv(j := v)) j
       = fold (\<lambda>i w. max w (tv i + p_of P i)) (predecessors P j) v"
proof -
  have "fold (\<lambda>i w. max w ((tv(j := v)) i + p_of P i)) (predecessors P j) ((tv(j := v)) j)
      = fold (\<lambda>i w. max w (tv i + p_of P i)) (predecessors P j) ((tv(j := v)) j)"
  proof (rule fold_cong [OF refl refl])
    fix x assume "x \<in> set (predecessors P j)"
    with assms have "x \<noteq> j" by blast
    then show "(\<lambda>w. max w ((tv(j := v)) x + p_of P x)) = (\<lambda>w. max w (tv x + p_of P x))" by simp
  qed
  then show ?thesis by (simp add: wait_scheduled_self [OF assms])
qed

lemma trace_partition_step:
  assumes d: "distinct (c @ sm @ sr)" and r: "\<forall>k\<in>set (c @ sm @ sr). 1 \<le> k \<and> k \<le> n"
    and m: "mset c' + mset sm' + mset sr' = mset c + mset sm + mset sr"
  shows "distinct (c' @ sm' @ sr')" and "\<forall>k\<in>set (c' @ sm' @ sr'). 1 \<le> k \<and> k \<le> n"
proof -
  from m have e: "mset (c' @ sm' @ sr') = mset (c @ sm @ sr)"
    by (simp only: mset_append add.assoc)
  from mset_eq_imp_distinct_iff [OF e] d show "distinct (c' @ sm' @ sr')" by blast
  from mset_eq_setD [OF e] r show "\<forall>k\<in>set (c' @ sm' @ sr'). 1 \<le> k \<and> k \<le> n" by blast
qed

lemma trace_inv_remote_step:
  assumes wfp: "wf_problem P" and inv: "trace_inv P st"
    and j: "j \<in> set (S_remote st)" and g: "gamma st j = 0"
  shows "trace_inv P (remote_step P j st)"
proof (rule trace_invI)
  let ?sch = "g_schedule st"
  let ?st = "remote_step P j st"
  note f = remote_step_fields [of P j st]
  from j have ju: "j \<in> set (S_manual st) \<union> set (S_remote st)" by simp
  note u = trace_ready [OF inv ju g]
  from u(1) have j0: "j \<noteq> 0" by simp
  from trace_invD(1) [OF inv] have l0: "0 < length ?sch" by simp
  note ca = concat_append_lane [OF l0, of j]
  note cm = mset_concat_append_lane [OF l0, of j]
  show "length (g_schedule ?st) = m_of P + 1"
    unfolding f using trace_invD(1) [OF inv] by simp
  from j have "add_mset j (mset (remove1 j (S_remote st))) = mset (S_remote st)" by simp
  then have ms: "mset (concat (g_schedule ?st)) + mset (S_manual ?st) + mset (S_remote ?st)
      = mset (concat ?sch) + mset (S_manual st) + mset (S_remote st)"
    unfolding f cm by (metis add_mset_add_single union_mset_add_mset_left union_mset_add_mset_right)
  from trace_partition_step [OF trace_invD(2,3) [OF inv] ms]
  show "distinct (concat (g_schedule ?st) @ S_manual ?st @ S_remote ?st)"
    and "\<forall>k\<in>set (concat (g_schedule ?st) @ S_manual ?st @ S_remote ?st). 1 \<le> k \<and> k \<le> n_of P" .
  from trace_invD(4) [OF inv]
  show "set (manual_ops P) \<subseteq> set (concat (g_schedule ?st)) \<union> set (S_manual ?st)"
    unfolding f ca by blast
  from gamma_step [OF wfp u(1,2,3) trace_invD(5) [OF inv]]
  show "\<forall>k. 1 \<le> k \<and> k \<le> n_of P \<longrightarrow>
          gamma ?st k = int (card (set (predecessors P k) - set (concat (g_schedule ?st))))"
    unfolding f ca .
  show "phi ?st l = lane_prev (g_schedule ?st) l (length (g_schedule ?st ! l))"
    if l: "1 \<le> l" "l \<le> m_of P" for l
  proof -
    from l trace_invD(1) [OF inv] have ll: "l < length ?sch" and ne: "l \<noteq> 0" by simp_all
    from ne have same: "?sch[0 := ?sch ! 0 @ [j]] ! l = ?sch ! l" by simp
    from lane_prev_append [OF l0 ll order_refl, of j] trace_invD(6) [OF inv l]
    show ?thesis unfolding f same by simp
  qed
  from trace_invD(8) [OF inv] obtain r where ord: "sched_order P ?sch r"
    and bound: "\<forall>k\<in>set (concat ?sch). r k < length (concat ?sch)" by blast
  have other: "g_t ?st k = g_t st k" if "k \<noteq> j" for k
    unfolding f using wait_scheduled_other [OF that, of P "(g_t st)(j := 0)"] that by simp
  have new: "g_t ?st j = fold (\<lambda>i v. max v (g_t st i + p_of P i)) (predecessors P j)
                (if (0::nat) \<noteq> 0 then g_t st (lane_prev ?sch 0 (length (?sch ! 0)))
                     + p_of P (lane_prev ?sch 0 (length (?sch ! 0)))
                     + s_of P (lane_prev ?sch 0 (length (?sch ! 0))) j 0 else 0)"
    unfolding f wait_scheduled_new [OF u(5)] by simp
  from sched_eq_append [OF trace_invD(7) [OF inv] ord l0 u(3) j0 u(4) other new]
  show "sched_eq P (g_schedule ?st) (g_t ?st)" unfolding f .
  from sched_order_append [OF ord bound l0 u(3,4)]
  have "sched_order P (g_schedule ?st) (r(j := length (concat ?sch))) \<and>
        (\<forall>k\<in>set (concat (g_schedule ?st)).
           (r(j := length (concat ?sch))) k < length (concat (g_schedule ?st)))"
    unfolding f ca by blast
  then show "\<exists>r. sched_order P (g_schedule ?st) r \<and>
      (\<forall>k\<in>set (concat (g_schedule ?st)). r k < length (concat (g_schedule ?st)))" by blast
qed

lemma trace_inv_manual_step:
  assumes wfp: "wf_problem P" and inv: "trace_inv P st"
    and j: "j \<in> set (S_manual st)" and g: "gamma st j = 0"
    and l: "1 \<le> l" "l \<le> m_of P"
  shows "trace_inv P (schedule_manual P j l st)"
proof (rule trace_invI)
  let ?sch = "g_schedule st"
  let ?st = "schedule_manual P j l st"
  note f = schedule_manual_fields(1,2,4,5,6) [of P j l st] schedule_manual_g_t [of P j l st]
  from j have ju: "j \<in> set (S_manual st) \<union> set (S_remote st)" by simp
  note u = trace_ready [OF inv ju g]
  from u(1) have j0: "j \<noteq> 0" by simp
  from trace_invD(1) [OF inv] l have ll: "l < length ?sch" and ne: "l \<noteq> 0" by simp_all
  note ca = concat_append_lane [OF ll, of j]
  note cm = mset_concat_append_lane [OF ll, of j]
  from trace_invD(2) [OF inv] have d: "distinct (S_manual st)" by simp
  then have rm: "removeAll j (S_manual st) = remove1 j (S_manual st)"
    by (rule distinct_remove1_removeAll [symmetric])
  show "length (g_schedule ?st) = m_of P + 1"
    unfolding f using trace_invD(1) [OF inv] by simp
  from j have "add_mset j (mset (remove1 j (S_manual st))) = mset (S_manual st)" by simp
  then have ms: "mset (concat (g_schedule ?st)) + mset (S_manual ?st) + mset (S_remote ?st)
      = mset (concat ?sch) + mset (S_manual st) + mset (S_remote st)"
    unfolding f cm rm by (metis add_mset_add_single union_mset_add_mset_left union_mset_add_mset_right)
  from trace_partition_step [OF trace_invD(2,3) [OF inv] ms]
  show "distinct (concat (g_schedule ?st) @ S_manual ?st @ S_remote ?st)"
    and "\<forall>k\<in>set (concat (g_schedule ?st) @ S_manual ?st @ S_remote ?st). 1 \<le> k \<and> k \<le> n_of P" .
  from trace_invD(4) [OF inv]
  show "set (manual_ops P) \<subseteq> set (concat (g_schedule ?st)) \<union> set (S_manual ?st)"
    unfolding f ca by auto
  from gamma_step [OF wfp u(1,2,3) trace_invD(5) [OF inv]]
  show "\<forall>k. 1 \<le> k \<and> k \<le> n_of P \<longrightarrow>
          gamma ?st k = int (card (set (predecessors P k) - set (concat (g_schedule ?st))))"
    unfolding f ca .
  show "phi ?st l' = lane_prev (g_schedule ?st) l' (length (g_schedule ?st ! l'))"
    if l': "1 \<le> l'" "l' \<le> m_of P" for l'
  proof (cases "l' = l")
    case True
    from ll have "lane_prev (?sch[l := ?sch ! l @ [j]]) l (length (?sch[l := ?sch ! l @ [j]] ! l)) = j"
      by (simp add: lane_prev_def)
    then show ?thesis unfolding f True by simp
  next
    case False
    from l' trace_invD(1) [OF inv] have ll': "l' < length ?sch" by simp
    from False have same: "?sch[l := ?sch ! l @ [j]] ! l' = ?sch ! l'" by simp
    from lane_prev_append [OF ll ll' order_refl, of j] trace_invD(6) [OF inv l'] False
    show ?thesis unfolding f same by simp
  qed
  from trace_invD(8) [OF inv] obtain r where ord: "sched_order P ?sch r"
    and bound: "\<forall>k\<in>set (concat ?sch). r k < length (concat ?sch)" by blast
  have other: "g_t ?st k = g_t st k" if "k \<noteq> j" for k
    unfolding f using wait_scheduled_other [OF that, of P "(g_t st)(j := criterion_of P st j l)"] that
    by simp
  have new: "g_t ?st j = fold (\<lambda>i v. max v (g_t st i + p_of P i)) (predecessors P j)
                (if l \<noteq> 0 then g_t st (lane_prev ?sch l (length (?sch ! l)))
                     + p_of P (lane_prev ?sch l (length (?sch ! l)))
                     + s_of P (lane_prev ?sch l (length (?sch ! l))) j l else 0)"
    unfolding f wait_scheduled_new [OF u(5)] criterion_of_def trace_invD(6) [OF inv l]
    using ne by simp
  from sched_eq_append [OF trace_invD(7) [OF inv] ord ll u(3) j0 u(4) other new]
  show "sched_eq P (g_schedule ?st) (g_t ?st)" unfolding f .
  from sched_order_append [OF ord bound ll u(3,4)]
  have "sched_order P (g_schedule ?st) (r(j := length (concat ?sch))) \<and>
        (\<forall>k\<in>set (concat (g_schedule ?st)).
           (r(j := length (concat ?sch))) k < length (concat (g_schedule ?st)))"
    unfolding f ca by blast
  then show "\<exists>r. sched_order P (g_schedule ?st) r \<and>
      (\<forall>k\<in>set (concat (g_schedule ?st)). r k < length (concat (g_schedule ?st)))" by blast
qed

lemma trace_inv_drain:
  assumes wfp: "wf_problem P" and inv: "trace_inv P st"
  shows "trace_inv P (remote_drain P st)"
proof (rule remote_drain_rule [where I = "trace_inv P"])
  show "trace_inv P st" by (rule inv)
next
  fix s assume "trace_inv P s"
  from trace_invD(2) [OF this] show "distinct (S_remote s)" by simp
next
  fix s j assume "trace_inv P s" "j \<in> set (S_remote s)" "gamma s j = 0"
  with wfp show "trace_inv P (remote_step P j s)" by (rule trace_inv_remote_step)
qed

lemma greedy_final:
  assumes wfp: "wf_problem P" and run: "greedy_loop P (greedy_init P) = Some (Inr st)"
  shows "makespan_inv P st" and "trace_inv P st" and "S_manual st = []" and "S_remote st = []"
proof -
  define I where "I = (\<lambda>s. makespan_inv P s \<and> trace_inv P s)"
  have "I st \<and> S_manual st = [] \<and> S_remote st = []"
  proof (rule greedy_loop_rule [OF run])
    show "I (greedy_init P)"
      unfolding I_def using makespan_inv_init trace_inv_init [OF wfp] by blast
  next
    fix s assume "I s"
    then show "I (remote_drain P s)"
      unfolding I_def using makespan_inv_drain trace_inv_drain [OF wfp] by blast
  next
    fix s j l
    assume s: "I s" and c: "snd (choose_pair P (remote_drain P s)) = Some (j, l)"
    from s have m: "makespan_inv P (remote_drain P s)" and t: "trace_inv P (remote_drain P s)"
      unfolding I_def using makespan_inv_drain trace_inv_drain [OF wfp] by blast+
    note mem = choose_pair_member [OF c]
    from makespan_inv_manual [OF m mem(1)] trace_inv_manual_step [OF wfp t mem]
    show "I (schedule_manual P j l (remote_drain P s))" unfolding I_def by blast
  qed
  then show "makespan_inv P st" and "trace_inv P st" and "S_manual st = []" and "S_remote st = []"
    unfolding I_def by blast+
qed

lemma fold_dmax_Fin:
  "\<forall>j\<in>set xs. t j = Fin (g j) \<Longrightarrow>
   fold (\<lambda>j acc. dmax acc (dadd (t j) (Fin (p j)))) xs (Fin v)
     = Fin (fold max (map (\<lambda>j. g j + p j) xs) v)"
proof (induction xs arbitrary: v)
  case Nil
  then show ?case by simp
next
  case (Cons x xs)
  then have x: "t x = Fin (g x)" and xs: "\<forall>j\<in>set xs. t j = Fin (g j)" by simp_all
  have "fold (\<lambda>j acc. dmax acc (dadd (t j) (Fin (p j)))) (x # xs) (Fin v)
      = fold (\<lambda>j acc. dmax acc (dadd (t j) (Fin (p j)))) xs (Fin (max v (g x + p x)))"
    by (simp add: x)
  also have "\<dots> = Fin (fold max (map (\<lambda>j. g j + p j) xs) (max v (g x + p x)))"
    by (rule Cons.IH [OF xs])
  finally show ?case by (simp add: max.commute)
qed

text \<open>
  A remote operation 1 that takes 5 and precedes the manual operation 2; one
  team, every travel time 1.
\<close>

definition P_mixed :: Problem where
  "P_mixed = \<lparr> n_of = 2, m_of = 1, technology = (\<lambda>i. if i = 1 then REMOTE else MANUAL),
     p_of = (\<lambda>i. if i = 1 then 5 else if i = 2 then 1 else 0), s_of = (\<lambda>_ _ _. 1),
     predecessors = (\<lambda>j. if j = 2 then [1] else []),
     successors = (\<lambda>i. if i = 1 then [2] else []) \<rparr>"

text \<open>
  Claim C10.  The makespan returned by \<open>Greedy::solve\<close> with a schedule is the
  largest completion time \<open>t[j] + p[j]\<close> over the operations \<open>j\<close> of technology
  MANUAL, and 0 when there is none, where \<open>t\<close> is \<open>Problem::start_time\<close> of the
  returned schedule: the remote operations do not enter it.  On \<open>P_remote\<close>,
  where both switches are REMOTE, the constructor returns the makespan 0 with the
  schedule \<open>[[1, 2], []]\<close>, whose \<open>Problem::makespan\<close> is 2.
\<close>

theorem Greedy_makespan_manual_only:
  "(wf_problem P \<longrightarrow> Greedy_solve P = Some (Inr (sch, mk)) \<longrightarrow>
      Fin mk = fold (\<lambda>j acc. dmax acc (dadd (start_time P sch j) (Fin (p_of P j))))
                 (manual_ops P) (Fin 0)) \<and>
   Greedy_solve P_remote = Some (Inr ([[1, 2], []], 0)) \<and>
   makespan P_remote [[1, 2], []] = Fin 2"
proof (intro conjI impI)
  assume wfp: "wf_problem P" and solve: "Greedy_solve P = Some (Inr (sch, mk))"
  from solve obtain st where run: "greedy_loop P (greedy_init P) = Some (Inr st)"
    and sch: "sch = g_schedule st" and mk: "mk = g_makespan st"
    by (auto simp: Greedy_solve_def split: option.splits sum.splits)
  note fin = greedy_final [OF wfp run]
  note t = trace_invD [OF fin(2)]
  from t(2,3) have "distinct (concat sch)" "\<forall>j\<in>set (concat sch). 1 \<le> j \<and> j \<le> n_of P"
    unfolding sch by simp_all
  with t(1) have wfs: "wf_schedule P sch"
    unfolding sch wf_schedule_def list_all_iff by blast
  from t(8) obtain r where ord: "sched_order P sch r" unfolding sch by blast
  from t(7) have eq: "sched_eq P sch (g_t st)" unfolding sch .
  have agree: "\<forall>j\<in>set (manual_ops P). start_time P sch j = Fin (g_t st j)"
  proof
    fix j assume "j \<in> set (manual_ops P)"
    with t(4) fin(3) have "j \<in> set (concat sch)" unfolding sch by auto
    with wfp wfs eq ord show "start_time P sch j = Fin (g_t st j)" by (rule start_time_agree)
  qed
  from fin(1,3) have "g_makespan st = Max (set (0 # map (\<lambda>j. g_t st j + p_of P j) (manual_ops P)))"
    by (simp add: makespan_inv_def)
  then have "mk = fold max (map (\<lambda>j. g_t st j + p_of P j) (manual_ops P)) 0"
    unfolding mk by (simp only: Max_set_fold)
  with fold_dmax_Fin [OF agree, of "p_of P" 0]
  show "Fin mk = fold (\<lambda>j acc. dmax acc (dadd (start_time P sch j) (Fin (p_of P j))))
                   (manual_ops P) (Fin 0)" by simp
next
  show "Greedy_solve P_remote = Some (Inr ([[1, 2], []], 0))"
    by (simp add: greedy_eval P_remote_def)
  show "makespan P_remote [[1, 2], []] = Fin 2"
    by (simp add: makespan_def P_remote_def sim_eval)
qed

lemma wf_problem_P_mixed: "wf_problem P_mixed"
  by (simp add: wf_problem_def P_mixed_def upt_rec)

lemma Greedy_solve_P_mixed: "Greedy_solve P_mixed = Some (Inr ([[1], [2]], 6))"
  by (simp add: greedy_eval P_mixed_def)

lemma start_time_P_mixed:
  "start_time P_mixed [[1], [2]] 1 = Fin 0" "start_time P_mixed [[1], [2]] 2 = Fin 5"
  by (simp_all add: P_mixed_def sim_eval)

theorem Greedy_makespan_manual_only_witness:
  "wf_problem P_mixed \<and> Greedy_solve P_mixed = Some (Inr ([[1], [2]], 6)) \<and>
   manual_ops P_mixed = [2] \<and> start_time P_mixed [[1], [2]] 2 = Fin 5 \<and>
   Fin 6 = fold (\<lambda>j acc. dmax acc (dadd (start_time P_mixed [[1], [2]] j) (Fin (p_of P_mixed j))))
             (manual_ops P_mixed) (Fin 0)"
proof -
  have ops: "manual_ops P_mixed = [2]"
    by (simp add: manual_ops_def P_mixed_def upt_rec)
  from Greedy_makespan_manual_only [of P_mixed "[[1], [2]]" 6]
    wf_problem_P_mixed Greedy_solve_P_mixed
  have "Fin 6 = fold (\<lambda>j acc. dmax acc (dadd (start_time P_mixed [[1], [2]] j) (Fin (p_of P_mixed j))))
             (manual_ops P_mixed) (Fin 0)" by blast
  with wf_problem_P_mixed Greedy_solve_P_mixed ops start_time_P_mixed(2) show ?thesis by blast
qed

end
